theory Spec2Isabelle
  imports Complex_Main "HOL-Library.AList" "HOL-Library.Char_ord" "HOL-Library.List_Lexorder"
    "HOL-Library.Sublist"
begin

section \<open>Values\<close>

text \<open>
  The program is Python over the values that \<^verbatim>\<open>json.loads\<close> returns: \<^verbatim>\<open>None\<close>,
  booleans, unbounded integers, floats, strings, lists and dictionaries with string keys.
  A float is represented by its exact value (every finite double is a rational number), or
  by one of the three special values that \<^verbatim>\<open>json.loads\<close> accepts. A dictionary is an
  association list in insertion order with distinct keys; a Python string is a list of
  characters (code points below 256).
\<close>

datatype pyfloat = Finite rat | PosInf | NegInf | NaN

datatype json =
    JNull
  | JBool bool
  | JInt int
  | JFloat pyfloat
  | JStr string
  | JList "json list"
  | JObj "(string \<times> json) list"

text \<open>
  The reasons that \<^verbatim>\<open>validate_pedigree\<close> and \<^verbatim>\<open>load_json_payload\<close> report. The source
  builds them as message strings, some by formatting a value into the text; the model keeps
  the message's kind and the formatted value apart:
  \<^item> \<open>NotAJsonObject\<close>: "Pedigree must be a JSON object";
  \<^item> \<open>MissingPeopleOrRelationships\<close>: "Pedigree must include 'people' and 'relationships'";
  \<^item> \<open>PersonNotObject\<close>: "Each person must be an object";
  \<^item> \<open>PersonMissingKeys ks\<close>: "Person missing required keys: \{ks\}";
  \<^item> \<open>PersonIdNotInteger\<close>: "Person id must be an integer";
  \<^item> \<open>UnsupportedGender v\<close>: "Unsupported gender value: \{v\}";
  \<^item> \<open>InvalidDob v\<close>: "Invalid dob: \{v\}";
  \<^item> \<open>ConditionsNotList\<close>: "conditions must be a list";
  \<^item> \<open>UnknownPersonId\<close>: "Relationship references unknown person id";
  \<^item> \<open>UnsupportedRelationshipType t\<close>: "Unsupported relationship type: \{t\}";
  \<^item> \<open>InvalidJsonPayload d\<close>: "Invalid JSON payload: \{d\}", with the parser's diagnostic;
  \<^item> \<open>UnknownValidationError\<close>: "Unknown validation error".
\<close>

datatype reason =
    NotAJsonObject
  | MissingPeopleOrRelationships
  | PersonNotObject
  | PersonMissingKeys "string list"
  | PersonIdNotInteger
  | UnsupportedGender json
  | InvalidDob json
  | ConditionsNotList
  | UnknownPersonId
  | UnsupportedRelationshipType string
  | InvalidJsonPayload string
  | UnknownValidationError

text \<open>Every exception the modelled code can raise is a value of this type.\<close>

datatype py_error =
    TypeError
  | AttributeError
  | KeyError
  | ValueError
  | ZeroDivisionError
  | RecursionError
  | NetworkXError
  | PedigreeValidationError reason

text \<open>Sequencing of steps that may raise: the first exception ends the computation.\<close>

definition bindE :: "py_error + 'a \<Rightarrow> ('a \<Rightarrow> py_error + 'b) \<Rightarrow> py_error + 'b" where
  "bindE m f = (case m of Inl e \<Rightarrow> Inl e | Inr x \<Rightarrow> f x)"

fun mapE :: "('a \<Rightarrow> py_error + 'b) \<Rightarrow> 'a list \<Rightarrow> py_error + 'b list" where
  "mapE f [] = Inr []"
| "mapE f (x # xs) = bindE (f x) (\<lambda>y. bindE (mapE f xs) (\<lambda>ys. Inr (y # ys)))"

subsection \<open>Operations of the language on values\<close>

text \<open>\<^verbatim>\<open>d.get(key, default)\<close>: only a dictionary has the method.\<close>

fun py_get :: "json \<Rightarrow> string \<Rightarrow> json \<Rightarrow> py_error + json" where
  "py_get (JObj kvs) k d = Inr (case map_of kvs k of None \<Rightarrow> d | Some v \<Rightarrow> v)"
| "py_get _ k d = Inl AttributeError"

text \<open>\<^verbatim>\<open>d[key]\<close> with a string key: KeyError on a dictionary without the key, TypeError on
  every other value.\<close>

fun py_getitem :: "json \<Rightarrow> string \<Rightarrow> py_error + json" where
  "py_getitem (JObj kvs) k = (case map_of kvs k of None \<Rightarrow> Inl KeyError | Some v \<Rightarrow> Inr v)"
| "py_getitem _ k = Inl TypeError"

text \<open>\<^verbatim>\<open>d[key] = v\<close> with a string key: an existing key keeps its position, a new key goes
  last; TypeError on every value that is not a dictionary.\<close>

fun py_setitem :: "json \<Rightarrow> string \<Rightarrow> json \<Rightarrow> py_error + json" where
  "py_setitem (JObj kvs) k v = Inr (JObj (AList.update k v kvs))"
| "py_setitem _ k v = Inl TypeError"

text \<open>Iteration (\<^verbatim>\<open>for x in v\<close>, \<^verbatim>\<open>enumerate(v)\<close>): a list yields its elements, a string its
  characters, a dictionary its keys; nothing else is iterable.\<close>

fun py_iter :: "json \<Rightarrow> py_error + json list" where
  "py_iter (JList xs) = Inr xs"
| "py_iter (JStr s) = Inr (map (\<lambda>c. JStr [c]) s)"
| "py_iter (JObj kvs) = Inr (map (\<lambda>kv. JStr (fst kv)) kvs)"
| "py_iter _ = Inl TypeError"

text \<open>Lists and dictionaries are unhashable: using one as a set member or a dictionary key
  raises TypeError.\<close>

fun hashable :: "json \<Rightarrow> bool" where
  "hashable (JList xs) = False"
| "hashable (JObj kvs) = False"
| "hashable _ = True"

subsection \<open>Deep copies\<close>

text \<open>
  \<^verbatim>\<open>copy.deepcopy(x)\<close> calls itself on every element of a list and on every value of a
  dictionary, so the copy of a value makes as many nested calls as the value is deep: one
  for a number, a string, a boolean, \<^verbatim>\<open>None\<close> and an empty container, one more than its
  deepest element for a list or a dictionary. The interpreter raises RecursionError when
  the calls nest deeper than its recursion limit allows; \<open>limit\<close> is the number of nested
  calls of \<^verbatim>\<open>deepcopy\<close> that the limit leaves room for at the place of the call (just under
  500 with the default limit of 1000). The copy of a value is an equal value that shares
  nothing with it; values of the model are immutable, so the copy is the value.
\<close>

definition max_list :: "nat list \<Rightarrow> nat" where
  "max_list ns = foldr max ns 0"

fun depth :: "json \<Rightarrow> nat" where
  "depth (JList xs) = Suc (max_list (map depth xs))"
| "depth (JObj kvs) = Suc (max_list (map (\<lambda>kv. depth (snd kv)) kvs))"
| "depth _ = 1"

definition deepcopy :: "nat \<Rightarrow> json \<Rightarrow> py_error + json" where
  "deepcopy limit x = (if depth x > limit then Inl RecursionError else Inr x)"

subsection \<open>Strings\<close>

text \<open>
  \<^verbatim>\<open>str.lower\<close> on code points below 256: the letters A to Z and the upper-case letters
  of Latin-1 (192 to 222 without the multiplication sign 215) move up by 32.
\<close>

definition char_lower :: "char \<Rightarrow> char" where
  "char_lower c =
     (let n = (of_char c :: nat)
      in if (65 \<le> n \<and> n \<le> 90) \<or> (192 \<le> n \<and> n \<le> 222 \<and> n \<noteq> 215)
         then char_of (n + 32) else c)"

definition py_lower :: "string \<Rightarrow> string" where
  "py_lower s = map char_lower s"

text \<open>
  \<^verbatim>\<open>str.strip\<close> with no argument removes leading and trailing whitespace: below 256 these
  are the code points 9 to 13, 28 to 32, 133 and 160.
\<close>

definition is_space :: "char \<Rightarrow> bool" where
  "is_space c =
     (let n = (of_char c :: nat)
      in (9 \<le> n \<and> n \<le> 13) \<or> (28 \<le> n \<and> n \<le> 32) \<or> n = 133 \<or> n = 160)"

definition py_strip :: "string \<Rightarrow> string" where
  "py_strip s = rev (dropWhile is_space (rev (dropWhile is_space s)))"

text \<open>The substring test \<^verbatim>\<open>needle in haystack\<close> on strings.\<close>

fun starts_with :: "string \<Rightarrow> string \<Rightarrow> bool" where
  "starts_with s [] = True"
| "starts_with [] (p # ps) = False"
| "starts_with (c # cs) (p # ps) = (c = p \<and> starts_with cs ps)"

fun str_contains :: "string \<Rightarrow> string \<Rightarrow> bool" where
  "str_contains needle [] = (needle = [])"
| "str_contains needle (c # cs) = (starts_with (c # cs) needle \<or> str_contains needle cs)"

section \<open>pedigree\_builder.py\<close>

definition ALLOWED_GENDERS :: "string list" where
  "ALLOWED_GENDERS = [''M'', ''F'', ''O'']"

definition ALLOWED_RELATIONSHIP_TYPES :: "string list" where
  "ALLOWED_RELATIONSHIP_TYPES =
     [''parent'', ''child'', ''sibling'', ''spouse'', ''adopted'', ''uncle'', ''aunt'', ''cousin'']"

subsection \<open>Dates\<close>

text \<open>
  \<^verbatim>\<open>datetime.strptime(value, "%Y-%m-%d")\<close> on a string. The library turns the format into
  the regular expression
  \<^verbatim>\<open>(\d\d\d\d)-(1[0-2]|0[1-9]|[1-9])-(3[01]|[12]\d|0[1-9]|[1-9]| [1-9])\<close>,
  matches it at the start of the string, raises ValueError when it does not match or when
  text remains after the match, and then builds the date, which raises ValueError for the
  year 0 and for a day the month does not have. \<open>strptime_ymd s\<close> is True when no
  ValueError is raised.
\<close>

definition is_digit :: "char \<Rightarrow> bool" where
  "is_digit c = (48 \<le> (of_char c :: nat) \<and> (of_char c :: nat) \<le> 57)"

definition digit_val :: "char \<Rightarrow> nat" where
  "digit_val c = of_char c - 48"

definition is_leap :: "nat \<Rightarrow> bool" where
  "is_leap y = (y mod 4 = 0 \<and> (y mod 100 \<noteq> 0 \<or> y mod 400 = 0))"

definition days_in_month :: "nat \<Rightarrow> nat \<Rightarrow> nat" where
  "days_in_month y m =
     (if m = 2 then (if is_leap y then 29 else 28)
      else if m = 4 \<or> m = 6 \<or> m = 9 \<or> m = 11 then 30 else 31)"

text \<open>The day group: the first alternative that matches a prefix, with the rest of the
  string.\<close>

fun match_day :: "string \<Rightarrow> (nat \<times> string) option" where
  "match_day (a # b # rest) =
     (if a = CHR ''3'' \<and> (b = CHR ''0'' \<or> b = CHR ''1'') then Some (30 + digit_val b, rest)
      else if (a = CHR ''1'' \<or> a = CHR ''2'') \<and> is_digit b
        then Some (10 * digit_val a + digit_val b, rest)
      else if a = CHR ''0'' \<and> is_digit b \<and> b \<noteq> CHR ''0'' then Some (digit_val b, rest)
      else if is_digit a \<and> a \<noteq> CHR ''0'' then Some (digit_val a, b # rest)
      else if a = CHR '' '' \<and> is_digit b \<and> b \<noteq> CHR ''0'' then Some (digit_val b, rest)
      else None)"
| "match_day [a] = (if is_digit a \<and> a \<noteq> CHR ''0'' then Some (digit_val a, []) else None)"
| "match_day [] = None"

text \<open>The hyphen and the day group after a month alternative.\<close>

fun match_hyphen_day :: "string \<Rightarrow> (nat \<times> string) option" where
  "match_hyphen_day (h # rest) = (if h = CHR ''-'' then match_day rest else None)"
| "match_hyphen_day [] = None"

text \<open>The month group and what follows it: the alternatives are tried in order, and one
  counts only when the rest of the expression matches after it.\<close>

definition match_month_day :: "string \<Rightarrow> (nat \<times> nat \<times> string) option" where
  "match_month_day s =
     (let alt1 = (case s of a # b # rest \<Rightarrow>
                    if a = CHR ''1'' \<and> (b = CHR ''0'' \<or> b = CHR ''1'' \<or> b = CHR ''2'')
                    then map_option (Pair (10 + digit_val b)) (match_hyphen_day rest) else None
                  | _ \<Rightarrow> None);
          alt2 = (case s of a # b # rest \<Rightarrow>
                    if a = CHR ''0'' \<and> is_digit b \<and> b \<noteq> CHR ''0''
                    then map_option (Pair (digit_val b)) (match_hyphen_day rest) else None
                  | _ \<Rightarrow> None);
          alt3 = (case s of a # rest \<Rightarrow>
                    if is_digit a \<and> a \<noteq> CHR ''0''
                    then map_option (Pair (digit_val a)) (match_hyphen_day rest) else None
                  | _ \<Rightarrow> None)
      in case alt1 of Some r \<Rightarrow> Some r
         | None \<Rightarrow> (case alt2 of Some r \<Rightarrow> Some r | None \<Rightarrow> alt3))"

fun strptime_ymd :: "string \<Rightarrow> bool" where
  "strptime_ymd (a # b # c # d # h # rest) =
     (if is_digit a \<and> is_digit b \<and> is_digit c \<and> is_digit d \<and> h = CHR ''-'' then
        (case match_month_day rest of
           None \<Rightarrow> False
         | Some (month, day, remaining) \<Rightarrow>
             (let year = 1000 * digit_val a + 100 * digit_val b + 10 * digit_val c + digit_val d
              in remaining = [] \<and> 1 \<le> year \<and> 1 \<le> day \<and> day \<le> days_in_month year month))
      else False)"
| "strptime_ymd _ = False"

text \<open>\<^verbatim>\<open>_is_valid_dob\<close>: only ValueError is caught, so a value that is not a string leaves
  \<^verbatim>\<open>strptime\<close> with TypeError.\<close>

fun is_valid_dob :: "json \<Rightarrow> py_error + bool" where
  "is_valid_dob (JStr s) = Inr (s = ''approx'' \<or> strptime_ymd s)"
| "is_valid_dob _ = Inl TypeError"

subsection \<open>Normalization\<close>

text \<open>\<^verbatim>\<open>raw.get("type", "").lower()\<close>: only a string has the method \<^verbatim>\<open>lower\<close>.\<close>

fun lower_strip :: "json \<Rightarrow> py_error + json" where
  "lower_strip (JStr s) = Inr (JStr (py_strip (py_lower s)))"
| "lower_strip _ = Inl AttributeError"

text \<open>\<^verbatim>\<open>_normalize_relationship\<close>. The default of the outer \<^verbatim>\<open>get\<close> is evaluated first.\<close>

definition normalize_relationship :: "json \<Rightarrow> py_error + json" where
  "normalize_relationship raw =
     bindE (py_get raw ''from_id'' JNull) (\<lambda>from_id.
     bindE (py_get raw ''from'' from_id) (\<lambda>from.
     bindE (py_get raw ''to_id'' JNull) (\<lambda>to_id.
     bindE (py_get raw ''to'' to_id) (\<lambda>to.
     bindE (py_get raw ''type'' (JStr '''')) (\<lambda>ty.
     bindE (lower_strip ty) (\<lambda>ty'.
     Inr (JObj [(''from'', from), (''to'', to), (''type'', ty')])))))))"

definition default_pedigree :: "json" where
  "default_pedigree = JObj [(''people'', JList []), (''relationships'', JList [])]"

text \<open>\<^verbatim>\<open>ensure_unique_ids\<close>: the loop over \<^verbatim>\<open>enumerate(people, start=1)\<close>, each round copying
  the person and assigning the index to the copy's \<^verbatim>\<open>id\<close>.\<close>

fun ensure_unique_ids_from :: "nat \<Rightarrow> int \<Rightarrow> json list \<Rightarrow> py_error + json list" where
  "ensure_unique_ids_from limit index [] = Inr []"
| "ensure_unique_ids_from limit index (person # rest) =
     bindE (deepcopy limit person) (\<lambda>copied.
     bindE (py_setitem copied ''id'' (JInt index)) (\<lambda>person_copy.
     bindE (ensure_unique_ids_from limit (index + 1) rest) (\<lambda>repaired.
     Inr (person_copy # repaired))))"

definition ensure_unique_ids :: "nat \<Rightarrow> json \<Rightarrow> py_error + json list" where
  "ensure_unique_ids limit people = bindE (py_iter people) (ensure_unique_ids_from limit 1)"

definition normalize_pedigree :: "nat \<Rightarrow> json \<Rightarrow> py_error + json" where
  "normalize_pedigree limit pedigree =
     bindE (py_get pedigree ''people'' (JList [])) (\<lambda>people.
     bindE (ensure_unique_ids limit people) (\<lambda>repaired.
     bindE (py_setitem default_pedigree ''people'' (JList repaired)) (\<lambda>normalized.
     bindE (py_get pedigree ''relationships'' (JList [])) (\<lambda>relationships.
     bindE (py_iter relationships) (\<lambda>rels.
     bindE (mapE normalize_relationship rels) (\<lambda>normalized_relationships.
     py_setitem normalized ''relationships'' (JList normalized_relationships)))))))"

subsection \<open>Validation\<close>

definition required_keys :: "string list" where
  "required_keys = [''id'', ''name'', ''gender'', ''dob'', ''conditions'']"

text \<open>\<^verbatim>\<open>isinstance(v, int)\<close> holds of integers and of booleans (a subclass of int, True
  being 1); the value is what \<^verbatim>\<open>person_ids.add\<close> stores.\<close>

fun int_value :: "json \<Rightarrow> int option" where
  "int_value (JInt n) = Some n"
| "int_value (JBool b) = Some (if b then 1 else 0)"
| "int_value _ = None"

text \<open>\<^verbatim>\<open>v in strings\<close> for a set of strings: the value is hashed, then compared.\<close>

fun in_strings :: "json \<Rightarrow> string list \<Rightarrow> py_error + bool" where
  "in_strings (JStr s) strings = Inr (s \<in> set strings)"
| "in_strings (JList xs) strings = Inl TypeError"
| "in_strings (JObj kvs) strings = Inl TypeError"
| "in_strings _ strings = Inr False"

text \<open>\<^verbatim>\<open>v in person_ids\<close> for the set of integers collected from the people: a boolean
  and a float are members when they equal a member (\<^verbatim>\<open>True == 1\<close>, \<^verbatim>\<open>1.0 == 1\<close>).\<close>

fun in_person_ids :: "json \<Rightarrow> int set \<Rightarrow> py_error + bool" where
  "in_person_ids (JInt n) ids = Inr (n \<in> ids)"
| "in_person_ids (JBool b) ids = Inr ((if b then 1 else 0) \<in> ids)"
| "in_person_ids (JFloat (Finite q)) ids = Inr (q \<in> of_int ` ids)"
| "in_person_ids (JFloat _) ids = Inr False"
| "in_person_ids JNull ids = Inr False"
| "in_person_ids (JStr s) ids = Inr False"
| "in_person_ids (JList xs) ids = Inl TypeError"
| "in_person_ids (JObj kvs) ids = Inl TypeError"

fun is_list :: "json \<Rightarrow> bool" where
  "is_list (JList xs) = True"
| "is_list _ = False"

text \<open>
  The body of the loop over the people. The result is an exception, or \<open>Inr (Inl r)\<close> when
  the function returns \<^verbatim>\<open>(False, r)\<close>, or \<open>Inr (Inr ids)\<close> with the new \<^verbatim>\<open>person_ids\<close> when
  the loop goes on. The missing keys are listed in the order of \<open>required_keys\<close> (the source
  formats a set, whose order is not fixed).
\<close>

definition validate_person :: "json \<Rightarrow> int set \<Rightarrow> py_error + (reason + int set)" where
  "validate_person person person_ids =
     (case person of
        JObj kvs \<Rightarrow>
          (let missing = filter (\<lambda>k. map_of kvs k = None) required_keys in
           if missing \<noteq> [] then Inr (Inl (PersonMissingKeys missing))
           else
             bindE (py_getitem person ''id'') (\<lambda>pid.
             case int_value pid of
               None \<Rightarrow> Inr (Inl PersonIdNotInteger)
             | Some n \<Rightarrow>
                 bindE (py_getitem person ''gender'') (\<lambda>gender.
                 bindE (in_strings gender ALLOWED_GENDERS) (\<lambda>gender_ok.
                 if \<not> gender_ok then Inr (Inl (UnsupportedGender gender))
                 else
                   bindE (py_getitem person ''dob'') (\<lambda>dob.
                   bindE (is_valid_dob dob) (\<lambda>dob_ok.
                   if \<not> dob_ok then Inr (Inl (InvalidDob dob))
                   else
                     bindE (py_getitem person ''conditions'') (\<lambda>conditions.
                     if \<not> is_list conditions then Inr (Inl ConditionsNotList)
                     else Inr (Inr (insert n person_ids)))))))))
      | _ \<Rightarrow> Inr (Inl PersonNotObject))"

fun validate_people :: "json list \<Rightarrow> int set \<Rightarrow> py_error + (reason + int set)" where
  "validate_people [] person_ids = Inr (Inr person_ids)"
| "validate_people (person # rest) person_ids =
     bindE (validate_person person person_ids) (\<lambda>r.
     case r of
       Inl why \<Rightarrow> Inr (Inl why)
     | Inr person_ids' \<Rightarrow> validate_people rest person_ids')"

text \<open>The body of the loop over the relationships: \<open>Inr (Some r)\<close> when the function
  returns \<^verbatim>\<open>(False, r)\<close>, \<open>Inr None\<close> when the loop goes on. The \<^verbatim>\<open>or\<close> does not look at
  \<^verbatim>\<open>to\<close> when \<^verbatim>\<open>from\<close> is unknown.\<close>

definition validate_relationship :: "json \<Rightarrow> int set \<Rightarrow> py_error + reason option" where
  "validate_relationship rel person_ids =
     bindE (normalize_relationship rel) (\<lambda>normalized_rel.
     bindE (py_getitem normalized_rel ''from'') (\<lambda>from.
     bindE (in_person_ids from person_ids) (\<lambda>from_known.
     if \<not> from_known then Inr (Some UnknownPersonId)
     else
       bindE (py_getitem normalized_rel ''to'') (\<lambda>to.
       bindE (in_person_ids to person_ids) (\<lambda>to_known.
       if \<not> to_known then Inr (Some UnknownPersonId)
       else
         bindE (py_getitem normalized_rel ''type'') (\<lambda>ty.
         bindE (in_strings ty ALLOWED_RELATIONSHIP_TYPES) (\<lambda>type_ok.
         if \<not> type_ok
         then Inr (Some (UnsupportedRelationshipType (case ty of JStr s \<Rightarrow> s | _ \<Rightarrow> [])))
         else Inr None)))))))"

fun validate_relationships :: "json list \<Rightarrow> int set \<Rightarrow> py_error + reason option" where
  "validate_relationships [] person_ids = Inr None"
| "validate_relationships (rel # rest) person_ids =
     bindE (validate_relationship rel person_ids) (\<lambda>r.
     case r of
       Some why \<Rightarrow> Inr (Some why)
     | None \<Rightarrow> validate_relationships rest person_ids)"

text \<open>\<^verbatim>\<open>validate_pedigree\<close> returns the pair \<^verbatim>\<open>(ok, error)\<close>, or raises.\<close>

definition validate_pedigree :: "json \<Rightarrow> py_error + (bool \<times> reason option)" where
  "validate_pedigree pedigree =
     (case pedigree of
        JObj kvs \<Rightarrow>
          if map_of kvs ''people'' = None \<or> map_of kvs ''relationships'' = None
          then Inr (False, Some MissingPeopleOrRelationships)
          else
            bindE (py_getitem pedigree ''people'') (\<lambda>people.
            bindE (py_iter people) (\<lambda>persons.
            bindE (validate_people persons {}) (\<lambda>r.
            case r of
              Inl why \<Rightarrow> Inr (False, Some why)
            | Inr person_ids \<Rightarrow>
                bindE (py_getitem pedigree ''relationships'') (\<lambda>relationships.
                bindE (py_iter relationships) (\<lambda>rels.
                bindE (validate_relationships rels person_ids) (\<lambda>r'.
                case r' of
                  Some why \<Rightarrow> Inr (False, Some why)
                | None \<Rightarrow> Inr (True, None)))))))
      | _ \<Rightarrow> Inr (False, Some NotAJsonObject))"

subsection \<open>Loading\<close>

text \<open>
  \<^verbatim>\<open>load_json_payload\<close>. The parser \<^verbatim>\<open>json.loads\<close> is the standard library's and is a
  parameter here: \<open>loads payload\<close> is \<open>Inl d\<close> when it raises JSONDecodeError with the
  diagnostic \<open>d\<close>, and \<open>Inr v\<close> when it returns \<open>v\<close>. The message of a failed validation is
  never empty, so \<^verbatim>\<open>error or "Unknown validation error"\<close> is the message unless it is None.
\<close>

definition load_json_payload ::
  "nat \<Rightarrow> (string \<Rightarrow> string + json) \<Rightarrow> string \<Rightarrow> py_error + json" where
  "load_json_payload limit loads payload =
     (case loads payload of
        Inl exc \<Rightarrow> Inl (PedigreeValidationError (InvalidJsonPayload exc))
      | Inr parsed \<Rightarrow>
          bindE (normalize_pedigree limit parsed) (\<lambda>normalized.
          bindE (validate_pedigree normalized) (\<lambda>(is_valid, error).
          if \<not> is_valid
          then Inl (PedigreeValidationError
                 (case error of Some why \<Rightarrow> why | None \<Rightarrow> UnknownValidationError))
          else Inr normalized)))"

section \<open>analysis\_engine.py\<close>

text \<open>
  The module uses the third-party library networkx when it can be imported and its own
  \<^verbatim>\<open>_FallbackDiGraph\<close> otherwise. The library is not part of the repository; the model
  follows the fallback (\<^verbatim>\<open>nx is None\<close>), whose code is all in the module.
\<close>

subsection \<open>Dictionary keys\<close>

text \<open>
  Graph nodes are dictionary keys. Python identifies keys that are equal: \<^verbatim>\<open>True\<close>, \<^verbatim>\<open>1\<close>
  and \<^verbatim>\<open>1.0\<close> are one key. A key is \<^verbatim>\<open>None\<close>, a number (with its exact value) or a string.
\<close>

datatype pykey = KNone | KNum pyfloat | KStr string

fun py_key :: "json \<Rightarrow> py_error + pykey" where
  "py_key JNull = Inr KNone"
| "py_key (JBool b) = Inr (KNum (Finite (if b then 1 else 0)))"
| "py_key (JInt n) = Inr (KNum (Finite (of_int n)))"
| "py_key (JFloat f) = Inr (KNum f)"
| "py_key (JStr s) = Inr (KStr s)"
| "py_key (JList xs) = Inl TypeError"
| "py_key (JObj kvs) = Inl TypeError"

text \<open>\<^verbatim>\<open>a >= b\<close> on floats: every comparison with NaN is False.\<close>

fun float_ge :: "pyfloat \<Rightarrow> pyfloat \<Rightarrow> bool" where
  "float_ge NaN b = False"
| "float_ge a NaN = False"
| "float_ge PosInf b = True"
| "float_ge a NegInf = True"
| "float_ge NegInf b = False"
| "float_ge a PosInf = False"
| "float_ge (Finite x) (Finite y) = (x \<ge> y)"

text \<open>
  \<^verbatim>\<open>i >= j\<close> on two ids: numbers compare by value, strings by code points; \<^verbatim>\<open>None\<close>, a
  dictionary and operands of different kinds raise TypeError. (Python compares two lists
  element by element; the model raises TypeError there too. A list cannot be an id in
  \<^verbatim>\<open>analyze_pedigree\<close>, where \<^verbatim>\<open>build_graph\<close> has raised TypeError on it before.)
\<close>

fun py_ge :: "json \<Rightarrow> json \<Rightarrow> py_error + bool" where
  "py_ge (JStr a) (JStr b) = Inr (a \<ge> b)"
| "py_ge a b =
     (case (py_key a, py_key b) of
        (Inr (KNum x), Inr (KNum y)) \<Rightarrow> Inr (float_ge x y)
      | _ \<Rightarrow> Inl TypeError)"

text \<open>\<^verbatim>\<open>u == node\<close> for a key \<open>u\<close> of the graph and a value: NaN equals nothing.\<close>

definition key_equals :: "pykey \<Rightarrow> json \<Rightarrow> bool" where
  "key_equals u node = (u \<noteq> KNum NaN \<and> py_key node = Inr u)"

text \<open>\<^verbatim>\<open>nbr in affected_ids\<close> for a key of the graph and a list of values: an element counts
  when it is the same object or equal.\<close>

definition key_in :: "pykey \<Rightarrow> json list \<Rightarrow> bool" where
  "key_in nbr values = list_ex (\<lambda>v. py_key v = Inr nbr) values"

subsection \<open>The fallback graph\<close>

record FallbackDiGraph =
  nodes_data :: "(pykey \<times> (string \<times> json) list) list"
  edge_data :: "((pykey \<times> pykey) \<times> (string \<times> json) list) list"

definition empty_graph :: FallbackDiGraph where
  "empty_graph = \<lparr>nodes_data = [], edge_data = []\<rparr>"

text \<open>\<^verbatim>\<open>graph.add_node(node, **attrs)\<close>: a keyword named like a parameter of the method is a
  TypeError, and so is a node that cannot be hashed.\<close>

definition add_node ::
  "FallbackDiGraph \<Rightarrow> json \<Rightarrow> (string \<times> json) list \<Rightarrow> py_error + FallbackDiGraph" where
  "add_node graph node attrs =
     (if map_of attrs ''self'' \<noteq> None \<or> map_of attrs ''node'' \<noteq> None then Inl TypeError
      else bindE (py_key node) (\<lambda>k.
           Inr (graph\<lparr>nodes_data := AList.update k attrs (nodes_data graph)\<rparr>)))"

definition add_edge ::
  "FallbackDiGraph \<Rightarrow> json \<Rightarrow> json \<Rightarrow> (string \<times> json) list \<Rightarrow> py_error + FallbackDiGraph" where
  "add_edge graph u v attrs =
     bindE (py_key u) (\<lambda>ku.
     bindE (py_key v) (\<lambda>kv.
     Inr (graph\<lparr>edge_data := AList.update (ku, kv) attrs (edge_data graph)\<rparr>)))"

definition number_of_nodes :: "FallbackDiGraph \<Rightarrow> nat" where
  "number_of_nodes graph = length (nodes_data graph)"

text \<open>\<^verbatim>\<open>graph.successors(node)\<close>: \<^verbatim>\<open>[v for (u, v) in self.edge_data if u == node]\<close>.\<close>

definition successors :: "FallbackDiGraph \<Rightarrow> json \<Rightarrow> pykey list" where
  "successors graph node =
     map snd (filter (\<lambda>uv. key_equals (fst uv) node) (map fst (edge_data graph)))"

text \<open>\<^verbatim>\<open>_has_edge_with_type\<close>, on two keys: the pair is looked up as a key of \<^verbatim>\<open>edge_data\<close>.\<close>

definition has_edge_with_type :: "FallbackDiGraph \<Rightarrow> pykey \<Rightarrow> pykey \<Rightarrow> string \<Rightarrow> bool" where
  "has_edge_with_type graph u v relationship_type =
     (case map_of (edge_data graph) (u, v) of
        None \<Rightarrow> False
      | Some attrs \<Rightarrow> map_of attrs ''type'' = Some (JStr relationship_type))"

subsection \<open>Building the graph\<close>

fun add_people :: "FallbackDiGraph \<Rightarrow> json list \<Rightarrow> py_error + FallbackDiGraph" where
  "add_people graph [] = Inr graph"
| "add_people graph (person # rest) =
     bindE (py_getitem person ''id'') (\<lambda>pid.
     bindE (case person of JObj attrs \<Rightarrow> add_node graph pid attrs | _ \<Rightarrow> Inl TypeError)
       (\<lambda>graph'. add_people graph' rest))"

fun add_relationships :: "FallbackDiGraph \<Rightarrow> json list \<Rightarrow> py_error + FallbackDiGraph" where
  "add_relationships graph [] = Inr graph"
| "add_relationships graph (relationship # rest) =
     bindE (py_getitem relationship ''from'') (\<lambda>from.
     bindE (py_getitem relationship ''to'') (\<lambda>to.
     bindE (py_getitem relationship ''type'') (\<lambda>ty.
     bindE (add_edge graph from to [(''type'', ty)]) (\<lambda>graph'.
     add_relationships graph' rest))))"

definition build_graph :: "json \<Rightarrow> py_error + FallbackDiGraph" where
  "build_graph pedigree =
     bindE (py_get pedigree ''people'' (JList [])) (\<lambda>people.
     bindE (py_iter people) (\<lambda>persons.
     bindE (add_people empty_graph persons) (\<lambda>graph.
     bindE (py_get pedigree ''relationships'' (JList [])) (\<lambda>relationships.
     bindE (py_iter relationships) (\<lambda>rels.
     add_relationships graph rels)))))"

subsection \<open>The cycle search\<close>

text \<open>
  \<^verbatim>\<open>_build_cycle_basis_fallback\<close>. The adjacency \<^verbatim>\<open>adj\<close> is a dictionary from a node to the
  set of its neighbours; a set is kept as the list of its members in the order they were
  added. Python iterates a set in an order of its own: \<open>set_order\<close> stands for it, a
  parameter that rearranges the members.
\<close>

type_synonym adjacency = "(pykey \<times> pykey list) list"

definition set_add :: "pykey list \<Rightarrow> pykey \<Rightarrow> pykey list" where
  "set_add s x = (if x \<in> set s then s else s @ [x])"

text \<open>\<^verbatim>\<open>adj.setdefault(u, set()).add(v)\<close>\<close>

definition setdefault_add :: "adjacency \<Rightarrow> pykey \<Rightarrow> pykey \<Rightarrow> adjacency" where
  "setdefault_add adj u v =
     AList.update u (set_add (case map_of adj u of None \<Rightarrow> [] | Some s \<Rightarrow> s) v) adj"

definition build_adjacency :: "FallbackDiGraph \<Rightarrow> adjacency" where
  "build_adjacency graph =
     foldl (\<lambda>adj uv. setdefault_add (setdefault_add adj (fst uv) (snd uv)) (snd uv) (fst uv))
       (map (\<lambda>k. (k, [])) (map fst (nodes_data graph)))
       (map fst (edge_data graph))"

text \<open>
  The state of the search: the stack of pairs \<^verbatim>\<open>(node, parent)\<close> with its top first, the
  dictionary \<^verbatim>\<open>parent\<close> (the parent of a root is \<^verbatim>\<open>None\<close>), and the cycles found so far.
\<close>

record search =
  stack :: "(pykey \<times> pykey) list"
  parent :: "(pykey \<times> pykey) list"
  cycles :: "pykey list list"

text \<open>The loop \<^verbatim>\<open>for nbr in adj[cur]\<close>.\<close>

fun visit_neighbours :: "pykey \<Rightarrow> pykey \<Rightarrow> pykey list \<Rightarrow> search \<Rightarrow> search" where
  "visit_neighbours cur par [] s = s"
| "visit_neighbours cur par (nbr # rest) s =
     (if nbr = par then visit_neighbours cur par rest s
      else if map_of (parent s) nbr \<noteq> None
        then visit_neighbours cur par rest (s\<lparr>cycles := cycles s @ [[cur, nbr]]\<rparr>)
      else visit_neighbours cur par rest
             (s\<lparr>parent := AList.update nbr cur (parent s), stack := (nbr, cur) # stack s\<rparr>))"

text \<open>The loop \<^verbatim>\<open>while stack\<close>. It returns the set \<^verbatim>\<open>visited\<close> and the cycles; \<^verbatim>\<open>adj[cur]\<close>
  raises KeyError for a node that is not a key of \<^verbatim>\<open>adj\<close>.\<close>

function search_component ::
  "(pykey list \<Rightarrow> pykey list) \<Rightarrow> adjacency \<Rightarrow> pykey list \<Rightarrow> search
     \<Rightarrow> py_error + (pykey list \<times> pykey list list)" where
  "search_component set_order adj visited s =
     (case stack s of
        [] \<Rightarrow> Inr (visited, cycles s)
      | (cur, par) # rest \<Rightarrow>
          if cur \<in> set visited then search_component set_order adj visited (s\<lparr>stack := rest\<rparr>)
          else
            (case map_of adj cur of
               None \<Rightarrow> Inl KeyError
             | Some nbrs \<Rightarrow>
                 search_component set_order adj (visited @ [cur])
                   (visit_neighbours cur par (set_order nbrs) (s\<lparr>stack := rest\<rparr>))))"
  by pat_completeness auto
termination
proof (relation "measures
    [\<lambda>(set_order, adj, visited, s). card (fst ` set adj - set visited),
     \<lambda>(set_order, adj, visited, s). length (stack s)]")
  show "wf (measures
    [\<lambda>(set_order, adj, visited, s). card (fst ` set adj - set visited),
     \<lambda>(set_order, adj, visited, s). length (stack s)])"
    by simp
next
  fix set_order :: "pykey list \<Rightarrow> pykey list" and adj :: adjacency and visited
    and s :: search and x21 x22 x y
  assume "stack s = x21 # x22" "(x, y) = x21" "x \<in> set visited"
  then show "((set_order, adj, visited, s\<lparr>stack := x22\<rparr>), set_order, adj, visited, s)
       \<in> measures
    [\<lambda>(set_order, adj, visited, s). card (fst ` set adj - set visited),
     \<lambda>(set_order, adj, visited, s). length (stack s)]"
    by simp
next
  fix set_order :: "pykey list \<Rightarrow> pykey list" and adj :: adjacency and visited
    and s :: search and x21 x22 x y x2
  assume a: "stack s = x21 # x22" "(x, y) = x21" "x \<notin> set visited" "map_of adj x = Some x2"
  then have "x \<in> fst ` set adj"
    by (metis domI dom_map_of_conv_image_fst)
  with a have "fst ` set adj - set (visited @ [x]) \<subset> fst ` set adj - set visited"
    by auto
  then have "card (fst ` set adj - set (visited @ [x])) < card (fst ` set adj - set visited)"
    by (simp add: psubset_card_mono)
  then show "((set_order, adj, visited @ [x],
         visit_neighbours x y (set_order x2) (s\<lparr>stack := x22\<rparr>)), set_order, adj, visited, s)
       \<in> measures
    [\<lambda>(set_order, adj, visited, s). card (fst ` set adj - set visited),
     \<lambda>(set_order, adj, visited, s). length (stack s)]"
    by simp
qed

text \<open>The loop \<^verbatim>\<open>for node in adj\<close>: a node not yet visited starts a search with a stack and
  a \<^verbatim>\<open>parent\<close> dictionary of its own.\<close>

fun search_roots ::
  "(pykey list \<Rightarrow> pykey list) \<Rightarrow> adjacency \<Rightarrow> pykey list \<Rightarrow> pykey list \<Rightarrow> pykey list list
     \<Rightarrow> py_error + pykey list list" where
  "search_roots set_order adj [] visited found = Inr found"
| "search_roots set_order adj (node # rest) visited found =
     (if node \<in> set visited then search_roots set_order adj rest visited found
      else
        bindE (search_component set_order adj visited
                 \<lparr>stack = [(node, KNone)], parent = [(node, KNone)], cycles = found\<rparr>)
          (\<lambda>(visited', found'). search_roots set_order adj rest visited' found'))"

definition build_cycle_basis_fallback ::
  "(pykey list \<Rightarrow> pykey list) \<Rightarrow> FallbackDiGraph \<Rightarrow> py_error + pykey list list" where
  "build_cycle_basis_fallback set_order graph =
     (let adj = build_adjacency graph
      in search_roots set_order adj (map fst adj) [] [])"

subsection \<open>The inbreeding estimate\<close>

text \<open>
  Floats are represented by exact rational values: the quotient, the product with 0.03125
  and the minimum with 0.25 are computed exactly, and \<^verbatim>\<open>round(x, 4)\<close> is rounding to the
  nearest multiple of 0.0001, a tie going to the even one. A division by zero is
  ZeroDivisionError.
\<close>

definition py_truediv :: "rat \<Rightarrow> rat \<Rightarrow> py_error + rat" where
  "py_truediv a b = (if b = 0 then Inl ZeroDivisionError else Inr (a / b))"

definition round_half_even :: "rat \<Rightarrow> int" where
  "round_half_even x =
     (let f = \<lfloor>x\<rfloor>; d = x - of_int f
      in if d < 1 / 2 then f else if d > 1 / 2 then f + 1 else if even f then f else f + 1)"

definition py_round4 :: "rat \<Rightarrow> rat" where
  "py_round4 x = of_int (round_half_even (x * 10000)) / 10000"

definition estimate_inbreeding ::
  "(pykey list \<Rightarrow> pykey list) \<Rightarrow> FallbackDiGraph \<Rightarrow> py_error + rat" where
  "estimate_inbreeding set_order graph =
     bindE (build_cycle_basis_fallback set_order graph) (\<lambda>found.
     if found = [] then Inr 0
     else
       (let total_cycle_nodes = sum_list (map length found)
        in bindE (py_truediv (of_nat total_cycle_nodes)
                    (of_nat (max 1 (number_of_nodes graph)))) (\<lambda>quotient.
           Inr (py_round4 (min (1 / 4) (quotient * (1 / 32)))))))"

subsection \<open>Inheritance patterns\<close>

text \<open>\<^verbatim>\<open>condition.lower()\<close>: only a string has the method.\<close>

fun lower_value :: "json \<Rightarrow> py_error + string" where
  "lower_value (JStr s) = Inr (py_lower s)"
| "lower_value _ = Inl AttributeError"

text \<open>\<^verbatim>\<open>_condition_to_people\<close>: the inner loop, over the conditions of one person, doing
  \<^verbatim>\<open>mapping.setdefault(condition.lower(), []).append(person["id"])\<close>.\<close>

fun add_conditions ::
  "json \<Rightarrow> json list \<Rightarrow> (string \<times> json list) list \<Rightarrow> py_error + (string \<times> json list) list" where
  "add_conditions person [] mapping = Inr mapping"
| "add_conditions person (condition # rest) mapping =
     bindE (lower_value condition) (\<lambda>key.
     bindE (py_getitem person ''id'') (\<lambda>pid.
     add_conditions person rest
       (AList.update key ((case map_of mapping key of None \<Rightarrow> [] | Some ids \<Rightarrow> ids) @ [pid])
          mapping)))"

fun add_people_conditions ::
  "json list \<Rightarrow> (string \<times> json list) list \<Rightarrow> py_error + (string \<times> json list) list" where
  "add_people_conditions [] mapping = Inr mapping"
| "add_people_conditions (person # rest) mapping =
     bindE (py_get person ''conditions'' (JList [])) (\<lambda>conditions.
     bindE (py_iter conditions) (\<lambda>cs.
     bindE (add_conditions person cs mapping) (\<lambda>mapping'.
     add_people_conditions rest mapping')))"

definition condition_to_people :: "json \<Rightarrow> py_error + (string \<times> json list) list" where
  "condition_to_people pedigree =
     bindE (py_get pedigree ''people'' (JList [])) (\<lambda>people.
     bindE (py_iter people) (\<lambda>persons.
     add_people_conditions persons []))"

text \<open>The loop \<^verbatim>\<open>for j in affected_ids\<close> for one \<^verbatim>\<open>i\<close>, counting into \<^verbatim>\<open>sibling_pairs\<close>.\<close>

fun sibling_pairs_of ::
  "FallbackDiGraph \<Rightarrow> json \<Rightarrow> json list \<Rightarrow> nat \<Rightarrow> py_error + nat" where
  "sibling_pairs_of graph i [] sibling_pairs = Inr sibling_pairs"
| "sibling_pairs_of graph i (j # rest) sibling_pairs =
     bindE (py_ge i j) (\<lambda>ge.
     if ge then sibling_pairs_of graph i rest sibling_pairs
     else
       bindE (py_key i) (\<lambda>u.
       bindE (py_key j) (\<lambda>v.
       sibling_pairs_of graph i rest
         (if has_edge_with_type graph u v ''sibling'' then sibling_pairs + 1
          else sibling_pairs))))"

text \<open>The loop \<^verbatim>\<open>for i in affected_ids\<close> around it.\<close>

fun count_sibling_pairs ::
  "FallbackDiGraph \<Rightarrow> json list \<Rightarrow> json list \<Rightarrow> nat \<Rightarrow> py_error + nat" where
  "count_sibling_pairs graph [] affected_ids sibling_pairs = Inr sibling_pairs"
| "count_sibling_pairs graph (i # rest) affected_ids sibling_pairs =
     bindE (sibling_pairs_of graph i affected_ids sibling_pairs) (\<lambda>sibling_pairs'.
     count_sibling_pairs graph rest affected_ids sibling_pairs')"

text \<open>The loop \<^verbatim>\<open>for nbr in _successors(graph, affected_id)\<close>, counting into
  \<^verbatim>\<open>parent_child_hits\<close>.\<close>

fun parent_child_hits_of ::
  "FallbackDiGraph \<Rightarrow> json \<Rightarrow> pykey list \<Rightarrow> json list \<Rightarrow> nat \<Rightarrow> py_error + nat" where
  "parent_child_hits_of graph affected_id [] affected_ids parent_child_hits =
     Inr parent_child_hits"
| "parent_child_hits_of graph affected_id (nbr # rest) affected_ids parent_child_hits =
     (if key_in nbr affected_ids then
        bindE (py_key affected_id) (\<lambda>u.
        parent_child_hits_of graph affected_id rest affected_ids
          (if has_edge_with_type graph u nbr ''parent'' \<or> has_edge_with_type graph u nbr ''child''
           then parent_child_hits + 1 else parent_child_hits))
      else parent_child_hits_of graph affected_id rest affected_ids parent_child_hits)"

fun count_parent_child_hits ::
  "FallbackDiGraph \<Rightarrow> json list \<Rightarrow> json list \<Rightarrow> nat \<Rightarrow> py_error + nat" where
  "count_parent_child_hits graph [] affected_ids parent_child_hits = Inr parent_child_hits"
| "count_parent_child_hits graph (affected_id # rest) affected_ids parent_child_hits =
     bindE (parent_child_hits_of graph affected_id (successors graph affected_id) affected_ids
              parent_child_hits) (\<lambda>parent_child_hits'.
     count_parent_child_hits graph rest affected_ids parent_child_hits')"

definition recessive_flag :: "string \<Rightarrow> string" where
  "recessive_flag condition = ''Autosomal recessive pattern possible for '' @ condition"

definition dominant_flag :: "string \<Rightarrow> string" where
  "dominant_flag condition = ''Autosomal dominant transmission possible for '' @ condition"

definition no_pattern_flag :: "string" where
  "no_pattern_flag = ''No clear inheritance pattern detected from available data''"

text \<open>The body of the loop over \<^verbatim>\<open>condition_map.items()\<close>. The count of parent and child
  edges is outside the test \<^verbatim>\<open>len(affected_ids) >= 2\<close>, as in the source.\<close>

definition condition_flags ::
  "FallbackDiGraph \<Rightarrow> string \<Rightarrow> json list \<Rightarrow> string list \<Rightarrow> py_error + string list" where
  "condition_flags graph condition affected_ids flags =
     bindE (if length affected_ids \<ge> 2
            then bindE (count_sibling_pairs graph affected_ids affected_ids 0) (\<lambda>sibling_pairs.
                   Inr (if sibling_pairs \<ge> 1 then flags @ [recessive_flag condition] else flags))
            else Inr flags) (\<lambda>flags'.
     bindE (count_parent_child_hits graph affected_ids affected_ids 0) (\<lambda>parent_child_hits.
     Inr (if parent_child_hits \<ge> 1 then flags' @ [dominant_flag condition] else flags')))"

fun conditions_flags ::
  "FallbackDiGraph \<Rightarrow> (string \<times> json list) list \<Rightarrow> string list \<Rightarrow> py_error + string list" where
  "conditions_flags graph [] flags = Inr flags"
| "conditions_flags graph ((condition, affected_ids) # rest) flags =
     bindE (condition_flags graph condition affected_ids flags) (\<lambda>flags'.
     conditions_flags graph rest flags')"

text \<open>\<^verbatim>\<open>infer_inheritance_patterns\<close>; \<^verbatim>\<open>sorted(set(flags))\<close> removes the duplicates and
  sorts the strings by code points.\<close>

definition infer_inheritance_patterns ::
  "FallbackDiGraph \<Rightarrow> json \<Rightarrow> py_error + string list" where
  "infer_inheritance_patterns graph pedigree =
     bindE (condition_to_people pedigree) (\<lambda>condition_map.
     bindE (conditions_flags graph condition_map []) (\<lambda>flags.
     Inr (sort (remdups (if flags = [] then [no_pattern_flag] else flags)))))"

subsection \<open>The risk bucket\<close>

text \<open>
  \<^verbatim>\<open>_risk_bucket(inbreeding, flags)\<close> of analysis\_engine.py. The score is a float that is
  only compared with the constants 0.0625 and 0.015625, both exact in binary, so the score
  is represented by its exact value.
\<close>

definition risk_bucket :: "rat \<Rightarrow> string list \<Rightarrow> string" where
  "risk_bucket inbreeding flags =
     (if inbreeding > 1 / 16 \<or> list_ex (\<lambda>f. str_contains ''dominant'' (py_lower f)) flags
      then ''High''
      else if inbreeding > 1 / 64 \<or> list_ex (\<lambda>f. str_contains ''recessive'' (py_lower f)) flags
      then ''Moderate''
      else ''Low'')"

text \<open>The ordering Low < Moderate < High of the three buckets.\<close>

definition bucket_rank :: "string \<Rightarrow> nat" where
  "bucket_rank b = (if b = ''High'' then 2 else if b = ''Moderate'' then 1 else 0)"

subsection \<open>The analysis\<close>

record AnalysisResult =
  inbreeding_coefficient :: rat
  inheritance_flags :: "string list"
  risk_level :: string
  recommendations :: "string list"

definition analyze_pedigree ::
  "(pykey list \<Rightarrow> pykey list) \<Rightarrow> json \<Rightarrow> py_error + AnalysisResult" where
  "analyze_pedigree set_order pedigree =
     bindE (build_graph pedigree) (\<lambda>graph.
     bindE (estimate_inbreeding set_order graph) (\<lambda>inbreeding.
     bindE (infer_inheritance_patterns graph pedigree) (\<lambda>flags.
     (let risk = risk_bucket inbreeding flags;
          advice =
            [''This tool is not medical advice; review with a licensed genetic counselor.'',
             ''Consider confirmatory genetic testing if there are multiple affected relatives.''];
          recommendations =
            (if risk = ''High''
             then advice @ [''Recommend expedited specialist referral and targeted screening.'']
             else if risk = ''Moderate''
             then advice @
               [''Recommend non-urgent genetics referral and family-wide history validation.'']
             else advice)
      in Inr \<lparr>inbreeding_coefficient = inbreeding, inheritance_flags = flags,
               risk_level = risk, recommendations = recommendations\<rparr>))))"

section \<open>data\_extractor.py\<close>

text \<open>\<^verbatim>\<open>str(n)\<close> for an integer: its decimal digits.\<close>

fun nat_digits :: "nat \<Rightarrow> string" where
  "nat_digits n =
     (if n < 10 then [char_of (48 + n)] else nat_digits (n div 10) @ [char_of (48 + n mod 10)])"

definition int_str :: "int \<Rightarrow> string" where
  "int_str n = (if n < 0 then CHR ''-'' # nat_digits (nat (- n)) else nat_digits (nat n))"

text \<open>
  The text that an f-string puts for a value: \<^verbatim>\<open>None\<close>, \<^verbatim>\<open>True\<close>, \<^verbatim>\<open>False\<close>, the digits of
  an integer, a string itself. For a float, a list and a dictionary it is Python's
  \<^verbatim>\<open>repr\<close>, a parameter here.
\<close>

fun py_format :: "(json \<Rightarrow> string) \<Rightarrow> json \<Rightarrow> string" where
  "py_format repr JNull = ''None''"
| "py_format repr (JBool b) = (if b then ''True'' else ''False'')"
| "py_format repr (JInt n) = int_str n"
| "py_format repr (JStr s) = s"
| "py_format repr v = repr v"

text \<open>
  \<^verbatim>\<open>pseudonymize_pedigree\<close>. \<^verbatim>\<open>json.loads(json.dumps(pedigree))\<close> builds a new value equal to
  its argument out of the argument's text, so the names are assigned in a copy that shares
  nothing with the argument; values of the model are immutable, and the copy of a value is
  the value. The loop assigns to the people of the copy in place: the result is the copy
  with the list under \<^verbatim>\<open>people\<close> holding the renamed people.
\<close>

definition pseudonymize_person :: "(json \<Rightarrow> string) \<Rightarrow> json \<Rightarrow> py_error + json" where
  "pseudonymize_person repr person =
     bindE (py_getitem person ''id'') (\<lambda>pid.
     py_setitem person ''name'' (JStr (''Person-'' @ py_format repr pid)))"

definition pseudonymize_pedigree :: "(json \<Rightarrow> string) \<Rightarrow> json \<Rightarrow> py_error + json" where
  "pseudonymize_pedigree repr pedigree =
     (let anonymized = pedigree
      in bindE (py_get anonymized ''people'' (JList [])) (\<lambda>people.
         bindE (py_iter people) (\<lambda>persons.
         bindE (mapE (pseudonymize_person repr) persons) (\<lambda>renamed.
         case people of
           JList _ \<Rightarrow>
             (case py_getitem anonymized ''people'' of
                Inr _ \<Rightarrow> py_setitem anonymized ''people'' (JList renamed)
              | Inl _ \<Rightarrow> Inr anonymized)
         | _ \<Rightarrow> Inr anonymized))))"

section \<open>Properties\<close>

subsection \<open>Example pedigrees\<close>

definition mk_person :: "json \<Rightarrow> string \<Rightarrow> string \<Rightarrow> string \<Rightarrow> string list \<Rightarrow> json" where
  "mk_person pid name gender dob conditions =
     JObj [(''id'', pid), (''name'', JStr name), (''gender'', JStr gender), (''dob'', JStr dob),
           (''conditions'', JList (map JStr conditions))]"

definition mk_relationship :: "json \<Rightarrow> json \<Rightarrow> string \<Rightarrow> json" where
  "mk_relationship from to ty = JObj [(''from'', from), (''to'', to), (''type'', JStr ty)]"

definition mk_pedigree :: "json list \<Rightarrow> json list \<Rightarrow> json" where
  "mk_pedigree people relationships =
     JObj [(''people'', JList people), (''relationships'', JList relationships)]"

definition example_people :: "json list" where
  "example_people =
     [mk_person (JInt 1) ''A'' ''F'' ''approx'' [],
      mk_person (JInt 2) ''B'' ''M'' ''1980-01-01'' [''x'']]"

definition example_pedigree :: json where
  "example_pedigree = mk_pedigree example_people [mk_relationship (JInt 1) (JInt 2) ''spouse'']"

definition dangling_pedigree :: json where
  "dangling_pedigree = mk_pedigree example_people [mk_relationship (JInt 1) (JInt 3) ''spouse'']"


subsection \<open>Sequencing and strings\<close>

lemma bindE_Inl [simp]: "bindE (Inl e) f = Inl e"
  by (simp add: bindE_def)

lemma bindE_Inr [simp]: "bindE (Inr x) f = f x"
  by (simp add: bindE_def)

lemma bindE_eq_Inr: "bindE m f = Inr y \<longleftrightarrow> (\<exists>x. m = Inr x \<and> f x = Inr y)"
  by (cases m) simp_all

lemma bindE_eq_Inl: "bindE m f = Inl e \<longleftrightarrow> m = Inl e \<or> (\<exists>x. m = Inr x \<and> f x = Inl e)"
  by (cases m) simp_all


lemma char_lower_idem: "char_lower (char_lower c) = char_lower c"
  by (auto simp: char_lower_def Let_def of_char_of)

lemma is_space_char_lower: "is_space (char_lower c) = is_space c"
  by (auto simp: char_lower_def is_space_def Let_def)

lemma py_lower_idem: "py_lower (py_lower s) = py_lower s"
  by (simp add: py_lower_def char_lower_idem)

lemma py_lower_strip: "py_lower (py_strip s) = py_strip (py_lower s)"
  by (simp add: py_lower_def py_strip_def dropWhile_map rev_map comp_def is_space_char_lower)

lemma dropWhile_strip_front: "dropWhile P (rev (dropWhile P (rev (dropWhile P s)))) = rev (dropWhile P (rev (dropWhile P s)))"
proof -
  define u where "u = dropWhile P s"
  define t where "t = rev (dropWhile P (rev u))"
  have "u = rev (takeWhile P (rev u) @ dropWhile P (rev u))"
    by (simp only: takeWhile_dropWhile_id rev_rev_ident)
  then have u: "u = t @ rev (takeWhile P (rev u))"
    by (simp only: rev_append t_def)
  have "dropWhile P t = t"
  proof (cases t)
    case Nil
    then show ?thesis by simp
  next
    case (Cons a t')
    from u Cons obtain w where "u = a # w"
      by (metis append_Cons)
    then have "dropWhile P s \<noteq> []" and "hd (dropWhile P s) = a"
      by (simp_all add: u_def)
    then have "\<not> P a"
      using hd_dropWhile [of P s] by auto
    with Cons show ?thesis by simp
  qed
  then show ?thesis by (simp add: t_def u_def)
qed

lemma py_strip_idem: "py_strip (py_strip s) = py_strip s"
  by (simp add: py_strip_def dropWhile_strip_front)

lemma strip_lower_idem: "py_strip (py_lower (py_strip (py_lower s))) = py_strip (py_lower s)"
  by (simp add: py_lower_strip py_lower_idem py_strip_idem)

subsection \<open>Normalization\<close>

fun is_obj :: "json \<Rightarrow> bool" where
  "is_obj (JObj kvs) = True"
| "is_obj _ = False"

fun is_str :: "json \<Rightarrow> bool" where
  "is_str (JStr s) = True"
| "is_str _ = False"

definition normalizable_relationship :: "json \<Rightarrow> bool" where
  "normalizable_relationship r =
     (case r of
        JObj kvs \<Rightarrow> (case map_of kvs ''type'' of None \<Rightarrow> True | Some v \<Rightarrow> is_str v)
      | _ \<Rightarrow> False)"

definition well_shaped :: "json \<Rightarrow> bool" where
  "well_shaped p =
     (case p of
        JObj kvs \<Rightarrow>
          (case map_of kvs ''people'' of
             None \<Rightarrow> True | Some (JList ps) \<Rightarrow> list_all is_obj ps | Some _ \<Rightarrow> False)
          \<and> (case map_of kvs ''relationships'' of
             None \<Rightarrow> True | Some (JList rs) \<Rightarrow> list_all normalizable_relationship rs | Some _ \<Rightarrow> False)
      | _ \<Rightarrow> False)"

text \<open>The people of a pedigree are nested no deeper than \<open>limit\<close>: the deep copy of each
  of them stays within the recursion limit.\<close>

definition people_within :: "nat \<Rightarrow> json \<Rightarrow> bool" where
  "people_within limit p =
     (case p of
        JObj kvs \<Rightarrow>
          (case map_of kvs ''people'' of
             Some (JList ps) \<Rightarrow> list_all (\<lambda>person. depth person \<le> limit) ps
           | _ \<Rightarrow> True)
      | _ \<Rightarrow> True)"

text \<open>A value that is \<open>n\<close> lists deep around \<open>x\<close>.\<close>

fun nest :: "nat \<Rightarrow> json \<Rightarrow> json" where
  "nest 0 x = x"
| "nest (Suc n) x = JList [nest n x]"

lemma max_list_Nil [simp]: "max_list [] = 0"
  by (simp add: max_list_def)

lemma max_list_Cons [simp]: "max_list (n # ns) = max n (max_list ns)"
  by (simp add: max_list_def)

lemma max_list_le_iff: "max_list ns \<le> m \<longleftrightarrow> (\<forall>n\<in>set ns. n \<le> m)"
  by (induction ns) auto

lemma depth_nest [simp]: "depth (nest n x) = n + depth x"
  by (induction n) simp_all

lemma depth_JObj_le:
  "depth (JObj kvs) \<le> m \<longleftrightarrow> 0 < m \<and> (\<forall>kv\<in>set kvs. depth (snd kv) < m)"
  by (cases m) (auto simp: max_list_le_iff less_Suc_eq_le)

lemma depth_JObj_update:
  assumes "depth (JObj kvs) \<le> m" and "depth v < m"
  shows "depth (JObj (AList.update k v kvs)) \<le> m"
proof -
  have "set (AList.update k v kvs) \<subseteq> insert (k, v) (set kvs)"
    by (induction kvs) auto
  with assms show ?thesis
    unfolding depth_JObj_le by auto
qed

lemma depth_set_id:
  assumes "depth (JObj kvs) \<le> limit" and "kvs \<noteq> [] \<or> 2 \<le> limit"
  shows "depth (JObj (AList.update ''id'' (JInt i) kvs)) \<le> limit"
proof -
  have "1 < limit"
  proof (cases kvs)
    case Nil
    with assms(2) show ?thesis by simp
  next
    case (Cons kv kvs')
    with assms(1) have "depth (snd kv) < limit" unfolding depth_JObj_le by simp
    moreover have "1 \<le> depth (snd kv)" by (cases "snd kv") simp_all
    ultimately show ?thesis by simp
  qed
  then have "depth (JInt i) < limit" by simp
  with assms(1) show ?thesis by (rule depth_JObj_update)
qed

lemma ensure_unique_ids_from_total:
  "list_all is_obj ps \<Longrightarrow> list_all (\<lambda>person. depth person \<le> limit) ps \<Longrightarrow>
   \<exists>qs. ensure_unique_ids_from limit i ps = Inr qs"
proof (induction ps arbitrary: i)
  case Nil
  show ?case by simp
next
  case (Cons p ps)
  then obtain kvs where p: "p = JObj kvs" by (cases p) auto
  from Cons obtain qs where "ensure_unique_ids_from limit (i + 1) ps = Inr qs" by fastforce
  with p Cons.prems show ?case by (simp add: deepcopy_def)
qed

lemma ensure_unique_ids_from_objs:
  "ensure_unique_ids_from limit i ps = Inr qs \<Longrightarrow>
   list_all is_obj ps \<and> list_all (\<lambda>person. depth person \<le> limit) ps"
proof (induction ps arbitrary: i qs)
  case Nil
  show ?case by simp
next
  case (Cons p ps)
  then show ?case
    by (cases p) (auto simp: bindE_eq_Inr deepcopy_def split: if_splits)
qed

lemma ensure_unique_ids_from_RecursionError:
  "list_all is_obj ps \<Longrightarrow> list_ex (\<lambda>person. depth person > limit) ps \<Longrightarrow>
   ensure_unique_ids_from limit i ps = Inl RecursionError"
proof (induction ps arbitrary: i)
  case Nil
  then show ?case by simp
next
  case (Cons p ps)
  then obtain kvs where p: "p = JObj kvs" by (cases p) auto
  show ?case
  proof (cases "depth p > limit")
    case True
    then show ?thesis by (simp add: deepcopy_def)
  next
    case False
    with Cons have "ensure_unique_ids_from limit (i + 1) ps = Inl RecursionError" by simp
    with False p show ?thesis by (simp add: deepcopy_def)
  qed
qed

text \<open>The people that come out of the loop go through it again unchanged, unless the first
  pass gave the empty person an \<^verbatim>\<open>id\<close> and so made it one level deeper than the limit.\<close>

lemma ensure_unique_ids_from_idem:
  "ensure_unique_ids_from limit i ps = Inr qs \<Longrightarrow>
   2 \<le> limit \<or> list_all (\<lambda>person. person \<noteq> JObj []) ps \<Longrightarrow>
   ensure_unique_ids_from limit i qs = Inr qs"
proof (induction ps arbitrary: i qs)
  case Nil
  then show ?case by simp
next
  case (Cons p ps)
  from Cons.prems(1) obtain kvs where p: "p = JObj kvs"
    by (cases p) (auto simp: bindE_eq_Inr deepcopy_def split: if_splits)
  from Cons.prems(1) p have d: "depth (JObj kvs) \<le> limit"
    by (auto simp: bindE_eq_Inr deepcopy_def split: if_splits)
  from Cons.prems(1) p d obtain qs' where
    qs': "ensure_unique_ids_from limit (i + 1) ps = Inr qs'" and
    qs: "qs = JObj (AList.update ''id'' (JInt i) kvs) # qs'"
    by (auto simp: bindE_eq_Inr deepcopy_def)
  from Cons.prems(2) p have "kvs \<noteq> [] \<or> 2 \<le> limit" by auto
  with d have d': "depth (JObj (AList.update ''id'' (JInt i) kvs)) \<le> limit"
    by (rule depth_set_id)
  from Cons.prems(2) have "2 \<le> limit \<or> list_all (\<lambda>person. person \<noteq> JObj []) ps" by auto
  with Cons.IH [OF qs'] have "ensure_unique_ids_from limit (i + 1) qs' = Inr qs'" by simp
  with d' show ?case
    by (simp add: qs deepcopy_def del: depth.simps)
qed

lemma lower_strip_str: "is_str v \<Longrightarrow> \<exists>s. lower_strip v = Inr (JStr s)"
  by (cases v) simp_all

lemma normalize_relationship_total:
  assumes "normalizable_relationship r"
  shows "\<exists>x. normalize_relationship r = Inr x"
proof -
  from assms obtain kvs where r: "r = JObj kvs"
    by (cases r) (simp_all add: normalizable_relationship_def)
  define ty where "ty = (case map_of kvs ''type'' of None \<Rightarrow> JStr [] | Some v \<Rightarrow> v)"
  from assms r have "is_str ty"
    by (simp add: normalizable_relationship_def ty_def split: option.splits)
  then obtain s where "lower_strip ty = Inr (JStr s)"
    using lower_strip_str by blast
  then show ?thesis
    by (simp add: r normalize_relationship_def ty_def [symmetric])
qed

lemma normalize_relationship_shape:
  assumes "normalize_relationship r = Inr x"
  shows "\<exists>f t s. x = JObj [(''from'', f), (''to'', t), (''type'', JStr (py_strip (py_lower s)))]"
proof -
  from assms obtain kvs where r: "r = JObj kvs"
    by (cases r) (simp_all add: normalize_relationship_def)
  from assms r obtain ty where ty: "lower_strip (case map_of kvs ''type'' of None \<Rightarrow> JStr [] | Some v \<Rightarrow> v) = Inr ty"
    by (auto simp: normalize_relationship_def bindE_eq_Inr)
  then obtain s where "ty = JStr (py_strip (py_lower s))"
    by (cases "case map_of kvs ''type'' of None \<Rightarrow> JStr [] | Some v \<Rightarrow> v") auto
  with assms r ty show ?thesis
    by (auto simp: normalize_relationship_def)
qed

lemma normalize_relationship_idem:
  assumes "normalize_relationship r = Inr x"
  shows "normalize_relationship x = Inr x"
proof -
  from normalize_relationship_shape [OF assms] obtain f t s
    where "x = JObj [(''from'', f), (''to'', t), (''type'', JStr (py_strip (py_lower s)))]"
    by blast
  then show ?thesis
    by (simp add: normalize_relationship_def strip_lower_idem)
qed

lemma mapE_idem:
  assumes "mapE f xs = Inr ys" and idem: "\<And>x y. f x = Inr y \<Longrightarrow> f y = Inr y"
  shows "mapE f ys = Inr ys"
  using assms(1)
proof (induction xs arbitrary: ys)
  case Nil
  then show ?case by simp
next
  case (Cons x xs)
  then show ?case by (auto simp: bindE_eq_Inr idem)
qed

lemma mapE_total:
  "list_all (\<lambda>x. \<exists>y. f x = Inr y) xs \<Longrightarrow> \<exists>ys. mapE f xs = Inr ys"
  by (induction xs) auto

lemma normalize_pedigree_shape:
  assumes "normalize_pedigree limit p = Inr q"
  shows "\<exists>people ps rels rs qs xs. py_get p ''people'' (JList []) = Inr people \<and> py_iter people = Inr ps
     \<and> ensure_unique_ids_from limit 1 ps = Inr qs
     \<and> py_get p ''relationships'' (JList []) = Inr rels \<and> py_iter rels = Inr rs
     \<and> mapE normalize_relationship rs = Inr xs
     \<and> q = JObj [(''people'', JList qs), (''relationships'', JList xs)]"
  using assms
  by (auto simp: normalize_pedigree_def ensure_unique_ids_def default_pedigree_def bindE_eq_Inr)

text \<open>Normalizing a result of normalization returns it unchanged, for every input on which
  normalization returns; the recursion limit has to leave room for two nested calls of the
  copy, which every person with an entry needs.\<close>

lemma normalize_pedigree_twice:
  assumes "normalize_pedigree limit p = Inr q" and "2 \<le> limit"
  shows "normalize_pedigree limit q = Inr q"
proof -
  from normalize_pedigree_shape [OF assms(1)] obtain ps rs qs xs where
    qs: "ensure_unique_ids_from limit 1 ps = Inr qs" and
    xs: "mapE normalize_relationship rs = Inr xs" and
    q: "q = JObj [(''people'', JList qs), (''relationships'', JList xs)]"
    by blast
  have "ensure_unique_ids_from limit 1 qs = Inr qs"
    using qs assms(2) by (simp add: ensure_unique_ids_from_idem)
  moreover have "mapE normalize_relationship xs = Inr xs"
    using xs normalize_relationship_idem by (rule mapE_idem)
  ultimately show ?thesis
    by (simp add: q normalize_pedigree_def ensure_unique_ids_def default_pedigree_def)
qed

text \<open>
  C3 (as amended). Normalization returns a result for every mapping whose \<^verbatim>\<open>people\<close> entry,
  when present, is a list of mappings nested no deeper than the recursion limit lets
  \<^verbatim>\<open>copy.deepcopy\<close> descend, and whose \<^verbatim>\<open>relationships\<close> entry, when present, is a list of
  mappings whose \<^verbatim>\<open>type\<close> entry, when present, is a string.
\<close>

theorem normalize_total_on_well_shaped:
  "well_shaped p \<Longrightarrow> people_within limit p \<Longrightarrow> \<exists>q. normalize_pedigree limit p = Inr q"
proof -
  assume ws: "well_shaped p" and pw: "people_within limit p"
  then obtain kvs where p: "p = JObj kvs"
    by (cases p) (simp_all add: well_shaped_def)
  define people where "people = (case map_of kvs ''people'' of None \<Rightarrow> JList [] | Some v \<Rightarrow> v)"
  define rels where "rels = (case map_of kvs ''relationships'' of None \<Rightarrow> JList [] | Some v \<Rightarrow> v)"
  from ws p obtain ps where ps: "people = JList ps" "list_all is_obj ps"
    by (auto simp: well_shaped_def people_def split: option.splits json.splits)
  from pw p ps(1) have within: "list_all (\<lambda>person. depth person \<le> limit) ps"
    by (auto simp: people_within_def people_def split: option.splits)
  from ws p obtain rs where rs: "rels = JList rs" "list_all normalizable_relationship rs"
    by (auto simp: well_shaped_def rels_def split: option.splits json.splits)
  from ps(2) within obtain qs where qs: "ensure_unique_ids_from limit 1 ps = Inr qs"
    using ensure_unique_ids_from_total by blast
  have "list_all (\<lambda>x. \<exists>y. normalize_relationship x = Inr y) rs"
    using rs(2) by (simp add: list_all_iff normalize_relationship_total)
  then obtain xs where xs: "mapE normalize_relationship rs = Inr xs"
    using mapE_total by blast
  show ?thesis
    using ps(1) rs(1) qs xs
    by (simp add: p normalize_pedigree_def ensure_unique_ids_def default_pedigree_def
        people_def [symmetric] rels_def [symmetric])
qed

lemma example_well_shaped: "well_shaped example_pedigree"
  by code_simp

lemma example_people_within: "people_within 498 example_pedigree"
  by code_simp

theorem normalize_total_on_well_shaped_witness:
  "well_shaped example_pedigree \<and> people_within 498 example_pedigree
   \<and> (\<exists>q. normalize_pedigree 498 example_pedigree = Inr q)"
  using normalize_total_on_well_shaped [OF example_well_shaped example_people_within]
    example_well_shaped example_people_within by simp

subsection \<open>Validation\<close>

definition person_id :: "json \<Rightarrow> int option" where
  "person_id p = (case py_getitem p ''id'' of Inr v \<Rightarrow> int_value v | Inl e \<Rightarrow> None)"

definition declared_ids :: "json list \<Rightarrow> int set" where
  "declared_ids ps = set (List.map_filter person_id ps)"

fun str_in :: "json \<Rightarrow> string list \<Rightarrow> bool" where
  "str_in (JStr s) strings = (s \<in> set strings)"
| "str_in _ strings = False"

fun valid_dob_value :: "json \<Rightarrow> bool" where
  "valid_dob_value (JStr d) = (d = ''approx'' \<or> strptime_ymd d)"
| "valid_dob_value _ = False"

definition field :: "(string \<times> json) list \<Rightarrow> string \<Rightarrow> json" where
  "field kvs k = (case map_of kvs k of Some v \<Rightarrow> v | None \<Rightarrow> JNull)"

definition valid_person :: "json \<Rightarrow> bool" where
  "valid_person p =
     (case p of
        JObj kvs \<Rightarrow>
          list_all (\<lambda>k. map_of kvs k \<noteq> None) required_keys
          \<and> int_value (field kvs ''id'') \<noteq> None
          \<and> str_in (field kvs ''gender'') ALLOWED_GENDERS
          \<and> valid_dob_value (field kvs ''dob'')
          \<and> is_list (field kvs ''conditions'')
      | _ \<Rightarrow> False)"

lemma validate_person_valid:
  assumes "valid_person p"
  shows "\<exists>n. person_id p = Some n \<and> validate_person p ids = Inr (Inr (insert n ids))"
proof -
  from assms obtain kvs where p: "p = JObj kvs"
    by (cases p) (simp_all add: valid_person_def)
  from assms p have keys: "filter (\<lambda>k. map_of kvs k = None) required_keys = []"
    by (simp add: valid_person_def filter_empty_conv list_all_iff)
  from assms p obtain vid vg vd vc where
    f: "map_of kvs ''id'' = Some vid" "map_of kvs ''gender'' = Some vg"
       "map_of kvs ''dob'' = Some vd" "map_of kvs ''conditions'' = Some vc"
    by (auto simp: valid_person_def required_keys_def)
  from assms p f obtain n where n: "int_value vid = Some n"
    by (auto simp: valid_person_def field_def)
  from assms p f have g: "in_strings vg ALLOWED_GENDERS = Inr True"
    by (cases vg) (simp_all add: valid_person_def field_def)
  from assms p f have d: "is_valid_dob vd = Inr True"
    by (cases vd) (simp_all add: valid_person_def field_def)
  from assms p f have c: "is_list vc"
    by (simp add: valid_person_def field_def)
  show ?thesis
    using keys f n g d c by (simp add: p validate_person_def person_id_def)
qed

lemma validate_person_Inr:
  assumes "validate_person p ids = Inr (Inr ids')"
  shows "valid_person p \<and> (\<exists>n. person_id p = Some n \<and> ids' = insert n ids)"
proof -
  from assms obtain kvs where p: "p = JObj kvs"
    by (cases p) (simp_all add: validate_person_def)
  from assms p have keys: "filter (\<lambda>k. map_of kvs k = None) required_keys = []"
    by (auto simp: validate_person_def Let_def split: if_splits)
  then obtain vid vg vd vc where
    f: "map_of kvs ''id'' = Some vid" "map_of kvs ''gender'' = Some vg"
       "map_of kvs ''dob'' = Some vd" "map_of kvs ''conditions'' = Some vc"
    by (auto simp: required_keys_def split: if_splits)
  from assms p keys f obtain n where n: "int_value vid = Some n"
    by (cases "int_value vid") (simp_all add: validate_person_def)
  from assms p keys f n have g: "in_strings vg ALLOWED_GENDERS = Inr True"
    by (cases "in_strings vg ALLOWED_GENDERS") (auto simp: validate_person_def split: if_splits)
  from assms p keys f n g have d: "is_valid_dob vd = Inr True"
    by (cases "is_valid_dob vd") (auto simp: validate_person_def split: if_splits)
  from assms p keys f n g d have c: "is_list vc" and ids': "ids' = insert n ids"
    by (auto simp: validate_person_def split: if_splits)
  from g have g': "str_in vg ALLOWED_GENDERS" by (cases vg) simp_all
  from d have d': "valid_dob_value vd" by (cases vd) simp_all
  from keys have "list_all (\<lambda>k. map_of kvs k \<noteq> None) required_keys"
    by (simp add: filter_empty_conv list_all_iff)
  with f n g' d' c ids' show ?thesis
    by (simp add: p valid_person_def field_def person_id_def)
qed

lemma declared_ids_Cons:
  "declared_ids (p # ps) = (case person_id p of None \<Rightarrow> declared_ids ps | Some n \<Rightarrow> insert n (declared_ids ps))"
  by (simp add: declared_ids_def split: option.splits)

lemma validate_people_valid:
  "list_all valid_person ps \<Longrightarrow> validate_people ps ids = Inr (Inr (ids \<union> declared_ids ps))"
proof (induction ps arbitrary: ids)
  case Nil
  show ?case by (simp add: declared_ids_def)
next
  case (Cons p ps)
  then obtain n where "person_id p = Some n" "validate_person p ids = Inr (Inr (insert n ids))"
    using validate_person_valid by fastforce
  with Cons show ?case by (simp add: declared_ids_Cons)
qed

lemma validate_people_Inr:
  "validate_people ps ids = Inr (Inr ids') \<Longrightarrow> list_all valid_person ps \<and> ids' = ids \<union> declared_ids ps"
proof (induction ps arbitrary: ids)
  case Nil
  then show ?case by (simp add: declared_ids_def)
next
  case (Cons p ps)
  from Cons.prems obtain r where r: "validate_person p ids = Inr r"
    and c: "(case r of Inl why \<Rightarrow> Inr (Inl why) | Inr ids1 \<Rightarrow> validate_people ps ids1) = Inr (Inr ids')"
    by (auto simp: bindE_eq_Inr)
  from c obtain ids1 where "r = Inr ids1" and 2: "validate_people ps ids1 = Inr (Inr ids')"
    by (cases r) auto
  with r have 1: "validate_person p ids = Inr (Inr ids1)" by simp
  from validate_person_Inr [OF 1] obtain n where "valid_person p" "person_id p = Some n" "ids1 = insert n ids"
    by blast
  with Cons.IH [OF 2] show ?case by (auto simp: declared_ids_Cons)
qed

definition endpoint :: "(string \<times> json) list \<Rightarrow> string \<Rightarrow> string \<Rightarrow> json" where
  "endpoint kvs k alt =
     (case map_of kvs k of
        Some v \<Rightarrow> v
      | None \<Rightarrow> (case map_of kvs alt of Some v \<Rightarrow> v | None \<Rightarrow> JNull))"

definition rel_type :: "(string \<times> json) list \<Rightarrow> json" where
  "rel_type kvs = (case map_of kvs ''type'' of Some v \<Rightarrow> v | None \<Rightarrow> JStr [])"

definition id_known :: "int set \<Rightarrow> json \<Rightarrow> bool" where
  "id_known ids v = (in_person_ids v ids = Inr True)"

fun type_allowed :: "json \<Rightarrow> bool" where
  "type_allowed (JStr s) = (py_strip (py_lower s) \<in> set ALLOWED_RELATIONSHIP_TYPES)"
| "type_allowed _ = False"

definition well_formed_relationship :: "int set \<Rightarrow> json \<Rightarrow> bool" where
  "well_formed_relationship ids r =
     (case r of
        JObj kvs \<Rightarrow>
          id_known ids (endpoint kvs ''from'' ''from_id'')
          \<and> id_known ids (endpoint kvs ''to'' ''to_id'')
          \<and> type_allowed (rel_type kvs)
      | _ \<Rightarrow> False)"

definition typed_person :: "json \<Rightarrow> bool" where
  "typed_person p =
     (case p of
        JObj kvs \<Rightarrow>
          (case map_of kvs ''gender'' of None \<Rightarrow> True | Some g \<Rightarrow> hashable g)
          \<and> (case map_of kvs ''dob'' of None \<Rightarrow> True | Some d \<Rightarrow> is_str d)
      | _ \<Rightarrow> True)"

definition typed_relationship :: "json \<Rightarrow> bool" where
  "typed_relationship r =
     (case r of
        JObj kvs \<Rightarrow>
          hashable (endpoint kvs ''from'' ''from_id'')
          \<and> hashable (endpoint kvs ''to'' ''to_id'')
          \<and> is_str (rel_type kvs)
      | _ \<Rightarrow> False)"

lemma normalize_relationship_obj:
  "normalize_relationship (JObj kvs) =
     bindE (lower_strip (rel_type kvs)) (\<lambda>ty'.
       Inr (JObj [(''from'', endpoint kvs ''from'' ''from_id''),
                  (''to'', endpoint kvs ''to'' ''to_id''), (''type'', ty')]))"
  by (simp add: normalize_relationship_def endpoint_def rel_type_def split: option.splits)

lemma in_person_ids_hashable: "hashable v \<Longrightarrow> \<exists>b. in_person_ids v ids = Inr b"
  by (induction v ids rule: in_person_ids.induct) auto

lemma in_strings_hashable: "hashable v \<Longrightarrow> \<exists>b. in_strings v strings = Inr b"
  by (cases v) auto

lemma id_known_hashable: "id_known ids v \<Longrightarrow> hashable v"
  by (cases v) (simp_all add: id_known_def)

lemma validate_relationship_well_formed:
  assumes "well_formed_relationship ids r"
  shows "validate_relationship r ids = Inr None"
proof -
  from assms obtain kvs where r: "r = JObj kvs"
    by (cases r) (simp_all add: well_formed_relationship_def)
  from assms r obtain s where s: "rel_type kvs = JStr s"
      "py_strip (py_lower s) \<in> set ALLOWED_RELATIONSHIP_TYPES"
    by (cases "rel_type kvs") (simp_all add: well_formed_relationship_def)
  from assms r have "in_person_ids (endpoint kvs ''from'' ''from_id'') ids = Inr True"
    and "in_person_ids (endpoint kvs ''to'' ''to_id'') ids = Inr True"
    by (simp_all add: well_formed_relationship_def id_known_def)
  with s show ?thesis
    by (simp add: r validate_relationship_def normalize_relationship_obj)
qed

lemma validate_relationship_None:
  assumes "validate_relationship r ids = Inr None"
  shows "well_formed_relationship ids r"
proof -
  from assms obtain x where x: "normalize_relationship r = Inr x"
    by (auto simp: validate_relationship_def bindE_eq_Inr)
  then obtain kvs where r: "r = JObj kvs"
    by (cases r) (simp_all add: normalize_relationship_def)
  from x r obtain s where s: "rel_type kvs = JStr s"
    by (cases "rel_type kvs") (simp_all add: normalize_relationship_obj)
  from assms r s have f: "in_person_ids (endpoint kvs ''from'' ''from_id'') ids = Inr True"
    by (cases "in_person_ids (endpoint kvs ''from'' ''from_id'') ids")
       (auto simp: validate_relationship_def normalize_relationship_obj split: if_splits)
  from assms r s f have t: "in_person_ids (endpoint kvs ''to'' ''to_id'') ids = Inr True"
    by (cases "in_person_ids (endpoint kvs ''to'' ''to_id'') ids")
       (auto simp: validate_relationship_def normalize_relationship_obj split: if_splits)
  from assms r s f t have "py_strip (py_lower s) \<in> set ALLOWED_RELATIONSHIP_TYPES"
    by (auto simp: validate_relationship_def normalize_relationship_obj split: if_splits)
  with s f t show ?thesis
    by (simp add: r well_formed_relationship_def id_known_def)
qed

lemma validate_relationship_typed:
  assumes "typed_relationship r"
  shows "\<exists>res. validate_relationship r ids = Inr res"
proof -
  from assms obtain kvs where r: "r = JObj kvs"
    by (cases r) (simp_all add: typed_relationship_def)
  from assms r obtain s where s: "rel_type kvs = JStr s"
    by (cases "rel_type kvs") (simp_all add: typed_relationship_def)
  from assms r obtain bf bt where
    f: "in_person_ids (endpoint kvs ''from'' ''from_id'') ids = Inr bf" and
    t: "in_person_ids (endpoint kvs ''to'' ''to_id'') ids = Inr bt"
    using in_person_ids_hashable by (fastforce simp: typed_relationship_def)
  show ?thesis
    using s f t by (simp add: r validate_relationship_def normalize_relationship_obj)
qed

lemma validate_relationships_well_formed:
  "list_all (well_formed_relationship ids) rs \<Longrightarrow> validate_relationships rs ids = Inr None"
  by (induction rs) (simp_all add: validate_relationship_well_formed)

lemma validate_relationships_None:
  "validate_relationships rs ids = Inr None \<Longrightarrow> list_all (well_formed_relationship ids) rs"
proof (induction rs)
  case Nil
  show ?case by simp
next
  case (Cons r rs)
  from Cons.prems obtain res where res: "validate_relationship r ids = Inr res"
    and c: "(case res of Some why \<Rightarrow> Inr (Some why) | None \<Rightarrow> validate_relationships rs ids) = Inr None"
    by (auto simp: bindE_eq_Inr)
  from c have "res = None" and "validate_relationships rs ids = Inr None"
    by (cases res; simp)+
  with res Cons.IH show ?case
    by (simp add: validate_relationship_None)
qed

lemma validate_relationships_typed:
  "list_all typed_relationship rs \<Longrightarrow> \<exists>res. validate_relationships rs ids = Inr res"
proof (induction rs)
  case Nil
  show ?case by simp
next
  case (Cons r rs)
  then obtain res where res: "validate_relationship r ids = Inr res"
    using validate_relationship_typed by fastforce
  with Cons show ?case by (cases res) auto
qed

lemma validate_person_typed:
  assumes "typed_person p"
  shows "\<exists>res. validate_person p ids = Inr res"
proof (cases p)
  case (JObj kvs)
  show ?thesis
  proof (cases "filter (\<lambda>k. map_of kvs k = None) required_keys = []")
    case False
    then show ?thesis by (simp add: JObj validate_person_def)
  next
    case True
    then obtain vid vg vd vc where
      f: "map_of kvs ''id'' = Some vid" "map_of kvs ''gender'' = Some vg"
         "map_of kvs ''dob'' = Some vd" "map_of kvs ''conditions'' = Some vc"
      by (auto simp: required_keys_def split: if_splits)
    from assms JObj f have "hashable vg" and "is_str vd"
      by (simp_all add: typed_person_def)
    then obtain bg s where "in_strings vg ALLOWED_GENDERS = Inr bg" and "vd = JStr s"
      using in_strings_hashable by (cases vd) fastforce+
    with True f show ?thesis
      by (cases "int_value vid") (simp_all add: JObj validate_person_def)
  qed
qed (simp_all add: validate_person_def)

lemma validate_people_typed:
  "list_all typed_person ps \<Longrightarrow> \<exists>res. validate_people ps ids = Inr res"
proof (induction ps arbitrary: ids)
  case Nil
  show ?case by simp
next
  case (Cons p ps)
  then obtain res where res: "validate_person p ids = Inr res"
    using validate_person_typed by fastforce
  with Cons show ?case by (cases res) auto
qed

lemma py_iter_not_list_valid:
  assumes "py_iter people = Inr ps" and "list_all valid_person ps" and "\<not> is_list people"
  shows "ps = []"
proof (cases people)
  case (JStr s)
  with assms show ?thesis by (cases s) (auto simp: valid_person_def)
next
  case (JObj kvs)
  with assms show ?thesis by (cases kvs) (auto simp: valid_person_def)
qed (use assms in auto)

subsection \<open>Loading\<close>






lemma validate_pedigree_True:
  assumes "validate_pedigree p = Inr (True, e)"
  shows "\<exists>kvs people rels ps rs. p = JObj kvs
     \<and> map_of kvs ''people'' = Some people \<and> py_iter people = Inr ps \<and> list_all valid_person ps
     \<and> map_of kvs ''relationships'' = Some rels \<and> py_iter rels = Inr rs
     \<and> list_all (well_formed_relationship (declared_ids ps)) rs"
proof -
  from assms obtain kvs where p: "p = JObj kvs"
    by (cases p) (simp_all add: validate_pedigree_def)
  from assms p obtain people rels where
    k: "map_of kvs ''people'' = Some people" "map_of kvs ''relationships'' = Some rels"
    by (auto simp: validate_pedigree_def split: if_splits)
  from assms p k obtain ps where ps: "py_iter people = Inr ps"
    by (cases "py_iter people") (simp_all add: validate_pedigree_def)
  from assms p k ps obtain res where res: "validate_people ps {} = Inr res"
    by (cases "validate_people ps {}") (simp_all add: validate_pedigree_def)
  from assms p k ps res obtain ids where ids: "res = Inr ids"
    by (cases res) (simp_all add: validate_pedigree_def)
  from assms p k ps res ids obtain rs where rs: "py_iter rels = Inr rs"
    by (cases "py_iter rels") (simp_all add: validate_pedigree_def)
  from assms p k ps res ids rs obtain res' where res': "validate_relationships rs ids = Inr res'"
    by (cases "validate_relationships rs ids") (simp_all add: validate_pedigree_def)
  from assms p k ps res ids rs res' have "res' = None"
    by (cases res') (simp_all add: validate_pedigree_def)
  moreover from res ids have "list_all valid_person ps" and "ids = declared_ids ps"
    using validate_people_Inr [of ps "{}" ids] by simp_all
  ultimately have "list_all (well_formed_relationship (declared_ids ps)) rs"
    using res' validate_relationships_None by blast
  with p k ps rs \<open>list_all valid_person ps\<close> show ?thesis by blast
qed

lemma valid_person_is_obj: "valid_person p \<Longrightarrow> is_obj p"
  by (cases p) (simp_all add: valid_person_def)

lemma well_formed_normalizable:
  assumes "well_formed_relationship ids r"
  shows "\<exists>x. normalize_relationship r = Inr x"
proof -
  from assms obtain kvs where r: "r = JObj kvs"
    by (cases r) (simp_all add: well_formed_relationship_def)
  from assms r obtain s where "rel_type kvs = JStr s"
    by (cases "rel_type kvs") (simp_all add: well_formed_relationship_def)
  then show ?thesis by (simp add: r normalize_relationship_obj)
qed

lemma valid_person_nonempty: "valid_person p \<Longrightarrow> p \<noteq> JObj []"
  by (auto simp: valid_person_def required_keys_def)

definition deep_name_pedigree :: json where
  "deep_name_pedigree =
     mk_pedigree
       [JObj [(''id'', JInt 1), (''name'', nest 600 (JStr ''A'')), (''gender'', JStr ''F''),
              (''dob'', JStr ''approx''), (''conditions'', JList [])]]
       []"

text \<open>
  C4 as stated fails on a pedigree that validation accepts and in which a person holds a
  value nested 600 lists deep (here the name, which validation does not look into): the
  deep copy of the person raises RecursionError, so there is no normalized structure to
  compare.
\<close>

theorem normalize_idempotent_counterexample:
  "validate_pedigree deep_name_pedigree = Inr (True, None)
   \<and> normalize_pedigree 498 deep_name_pedigree = Inl RecursionError"
  by (simp add: deep_name_pedigree_def mk_pedigree_def validate_pedigree_def
      validate_person_def required_keys_def ALLOWED_GENDERS_def normalize_pedigree_def
      ensure_unique_ids_def deepcopy_def)

text \<open>
  C4 (as amended). For every pedigree that validation accepts, normalizing twice has the
  outcome of normalizing once. When the people are nested no deeper than the recursion
  limit lets \<^verbatim>\<open>copy.deepcopy\<close> descend, normalization returns a structure and normalizing that
  structure returns it unchanged; when a person is nested deeper, normalization raises
  RecursionError.
\<close>

theorem normalize_idempotent:
  assumes "validate_pedigree p = Inr (True, None)"
  shows "bindE (normalize_pedigree limit p) (normalize_pedigree limit) = normalize_pedigree limit p
     \<and> (people_within limit p \<longrightarrow>
          (\<exists>q. normalize_pedigree limit p = Inr q \<and> normalize_pedigree limit q = Inr q))
     \<and> (\<not> people_within limit p \<longrightarrow> normalize_pedigree limit p = Inl RecursionError)"
proof -
  from validate_pedigree_True [OF assms] obtain kvs people rels ps rs where
    p: "p = JObj kvs" and
    people: "map_of kvs ''people'' = Some people" "py_iter people = Inr ps" "list_all valid_person ps" and
    rels: "map_of kvs ''relationships'' = Some rels" "py_iter rels = Inr rs"
      "list_all (well_formed_relationship (declared_ids ps)) rs"
    by blast
  from people(3) have objs: "list_all is_obj ps"
    by (simp add: list_all_iff valid_person_is_obj)
  from people(3) have nonempty: "list_all (\<lambda>person. person \<noteq> JObj []) ps"
    by (simp add: list_all_iff valid_person_nonempty)
  from rels(3) have "list_all (\<lambda>r. \<exists>x. normalize_relationship r = Inr x) rs"
    by (auto simp: list_all_iff intro: well_formed_normalizable)
  then obtain xs where xs: "mapE normalize_relationship rs = Inr xs"
    using mapE_total by blast
  have xs': "mapE normalize_relationship xs = Inr xs"
    using xs normalize_relationship_idem by (rule mapE_idem)
  have norm: "normalize_pedigree limit p =
      bindE (ensure_unique_ids_from limit 1 ps) (\<lambda>qs.
        Inr (JObj [(''people'', JList qs), (''relationships'', JList xs)]))"
    using people(1,2) rels(1,2) xs
    by (simp add: p normalize_pedigree_def ensure_unique_ids_def default_pedigree_def)
  have within: "people_within limit p \<longleftrightarrow> list_all (\<lambda>person. depth person \<le> limit) ps"
  proof (cases "is_list people")
    case True
    with people(2) have "people = JList ps" by (cases people) auto
    with people(1) show ?thesis by (simp add: p people_within_def)
  next
    case False
    with people(2,3) have "ps = []" by (rule py_iter_not_list_valid)
    with False people(1) show ?thesis
      by (cases people) (simp_all add: p people_within_def)
  qed
  show ?thesis
  proof (cases "people_within limit p")
    case True
    with within objs obtain qs where qs: "ensure_unique_ids_from limit 1 ps = Inr qs"
      using ensure_unique_ids_from_total by blast
    with nonempty have "ensure_unique_ids_from limit 1 qs = Inr qs"
      by (simp add: ensure_unique_ids_from_idem)
    with xs' have "normalize_pedigree limit (JObj [(''people'', JList qs), (''relationships'', JList xs)])
        = Inr (JObj [(''people'', JList qs), (''relationships'', JList xs)])"
      by (simp add: normalize_pedigree_def ensure_unique_ids_def default_pedigree_def)
    with norm qs True show ?thesis by simp
  next
    case False
    with within have "list_ex (\<lambda>person. depth person > limit) ps"
      by (auto simp: list_all_iff list_ex_iff not_le)
    with objs have "ensure_unique_ids_from limit 1 ps = Inl RecursionError"
      by (rule ensure_unique_ids_from_RecursionError)
    with norm False show ?thesis by simp
  qed
qed

lemma example_valid: "validate_pedigree example_pedigree = Inr (True, None)"
  by code_simp

theorem normalize_idempotent_witness:
  "validate_pedigree example_pedigree = Inr (True, None)
   \<and> people_within 498 example_pedigree
   \<and> (\<exists>q. normalize_pedigree 498 example_pedigree = Inr q \<and> normalize_pedigree 498 q = Inr q)"
  using normalize_idempotent [OF example_valid, of 498] example_valid example_people_within
  by simp

lemma ensure_unique_ids_from_length:
  "ensure_unique_ids_from limit i ps = Inr qs \<Longrightarrow> length qs = length ps"
  by (induction ps arbitrary: i qs) (auto simp: bindE_eq_Inr)










text \<open>
  C3 as stated fails: normalization raises on parsed JSON whose \<^verbatim>\<open>people\<close> entry is a number
  or a list holding a number, whose relationship has a number as its type, on a JSON
  document that is a list, and on a person that holds a value nested 600 lists deep.
\<close>

theorem normalize_totality_counterexample:
  "normalize_pedigree 498 (JObj [(''people'', JInt 5)]) = Inl TypeError
   \<and> normalize_pedigree 498 (JObj [(''people'', JList [JInt 1])]) = Inl TypeError
   \<and> normalize_pedigree 498 (JObj [(''relationships'', JList [JObj [(''type'', JInt 5)]])])
       = Inl AttributeError
   \<and> normalize_pedigree 498 (JList []) = Inl AttributeError
   \<and> normalize_pedigree 498 (JObj [(''people'', JList [JObj [(''name'', nest 600 JNull)]])])
       = Inl RecursionError"
  by (simp add: normalize_pedigree_def ensure_unique_ids_def default_pedigree_def
      normalize_relationship_def deepcopy_def)

text \<open>
  C1. \<^verbatim>\<open>load_json_payload\<close> has failure modes other than PedigreeValidationError. On the
  text \<^verbatim>\<open>[]\<close>, which the parser turns into the empty list, normalization runs before the
  validation that would report "Pedigree must be a JSON object" and raises AttributeError.
  On a person whose \<^verbatim>\<open>dob\<close> is the number 5, \<^verbatim>\<open>_is_valid_dob\<close> catches only ValueError and
  the TypeError of \<^verbatim>\<open>strptime\<close> escapes.
\<close>

theorem load_json_payload_other_failures:
  \<open>load_json_payload 498 (\<lambda>payload. Inr (JList [])) ''[]'' = Inl AttributeError
   \<and> load_json_payload 498
        (\<lambda>payload. Inr (JObj [(''people'', JList [JObj [(''id'', JInt 1), (''name'', JStr ''A''),
            (''gender'', JStr ''M''), (''dob'', JInt 5), (''conditions'', JList [])]]),
            (''relationships'', JList [])]))
        ''{"people":[{"id":1,"name":"A","gender":"M","dob":5,"conditions":[]}],"relationships":[]}''
      = Inl TypeError\<close>
  by (simp add: load_json_payload_def normalize_pedigree_def ensure_unique_ids_def
      default_pedigree_def validate_pedigree_def validate_person_def required_keys_def
      ALLOWED_GENDERS_def deepcopy_def)

text \<open>
  What validation does with the relationships. A pedigree with a relationship that is not
  well formed against the declared person ids (after the alternate keys are read, its
  \<^verbatim>\<open>from\<close> or \<^verbatim>\<open>to\<close> does not equal a declared id, or its lower-cased trimmed type is not
  allowed) is never accepted; validation returns \<^verbatim>\<open>ok = False\<close> with a reason when gender
  and relationship endpoints are scalars and dob and type are strings, and raises otherwise.
  A pedigree whose people all carry the required fields with valid values and whose
  relationships are all well formed is accepted with no error.
\<close>

lemma validate_pedigree_complete:
  "(map_of kvs ''people'' = Some (JList ps) \<and> map_of kvs ''relationships'' = Some (JList rs)
      \<and> list_ex (\<lambda>r. \<not> well_formed_relationship (declared_ids ps) r) rs
    \<longrightarrow> (\<forall>e. validate_pedigree (JObj kvs) \<noteq> Inr (True, e))
        \<and> (list_all typed_person ps \<and> list_all typed_relationship rs
             \<longrightarrow> (\<exists>why. validate_pedigree (JObj kvs) = Inr (False, Some why))))
   \<and> (map_of kvs ''people'' = Some (JList ps) \<and> map_of kvs ''relationships'' = Some (JList rs)
      \<and> list_all valid_person ps \<and> list_all (well_formed_relationship (declared_ids ps)) rs
    \<longrightarrow> validate_pedigree (JObj kvs) = Inr (True, None))"
proof (intro conjI impI allI)
  fix e
  assume a: "map_of kvs ''people'' = Some (JList ps) \<and> map_of kvs ''relationships'' = Some (JList rs)
      \<and> list_ex (\<lambda>r. \<not> well_formed_relationship (declared_ids ps) r) rs"
  show "validate_pedigree (JObj kvs) \<noteq> Inr (True, e)"
  proof
    assume "validate_pedigree (JObj kvs) = Inr (True, e)"
    from validate_pedigree_True [OF this] a
    have "list_all (well_formed_relationship (declared_ids ps)) rs" by auto
    with a show False by (auto simp: list_all_iff list_ex_iff)
  qed
next
  assume a: "map_of kvs ''people'' = Some (JList ps) \<and> map_of kvs ''relationships'' = Some (JList rs)
      \<and> list_ex (\<lambda>r. \<not> well_formed_relationship (declared_ids ps) r) rs"
    and t: "list_all typed_person ps \<and> list_all typed_relationship rs"
  from t obtain res where res: "validate_people ps {} = Inr res"
    using validate_people_typed by blast
  show "\<exists>why. validate_pedigree (JObj kvs) = Inr (False, Some why)"
  proof (cases res)
    case (Inl why)
    with a res show ?thesis by (simp add: validate_pedigree_def)
  next
    case (Inr ids)
    with res have ids: "ids = declared_ids ps"
      using validate_people_Inr [of ps "{}" ids] by simp
    from t obtain res' where res': "validate_relationships rs ids = Inr res'"
      using validate_relationships_typed by blast
    have "res' \<noteq> None"
    proof
      assume "res' = None"
      with res' ids have "list_all (well_formed_relationship (declared_ids ps)) rs"
        using validate_relationships_None by blast
      with a show False by (auto simp: list_all_iff list_ex_iff)
    qed
    then obtain why where "res' = Some why" by blast
    with a res Inr res' show ?thesis by (simp add: validate_pedigree_def)
  qed
next
  assume a: "map_of kvs ''people'' = Some (JList ps) \<and> map_of kvs ''relationships'' = Some (JList rs)
      \<and> list_all valid_person ps \<and> list_all (well_formed_relationship (declared_ids ps)) rs"
  then have "validate_people ps {} = Inr (Inr (declared_ids ps))"
    using validate_people_valid [of ps "{}"] by simp
  moreover from a have "validate_relationships rs (declared_ids ps) = Inr None"
    using validate_relationships_well_formed by blast
  ultimately show "validate_pedigree (JObj kvs) = Inr (True, None)"
    using a by (simp add: validate_pedigree_def)
qed

text \<open>
  C5. \<^verbatim>\<open>validate_pedigree\<close> does not return \<^verbatim>\<open>ok = False\<close> for every pedigree with a
  relationship that references an undeclared id or has a type that is not allowed. With the
  two declared people 1 and 2: a relationship whose \<^verbatim>\<open>from\<close> is a list raises TypeError (a
  list cannot be looked up in the set of ids); a relationship to the undeclared id 9 whose
  \<^verbatim>\<open>type\<close> is the number 5 raises AttributeError (a number has no \<^verbatim>\<open>lower\<close>); a relationship
  to the undeclared id 9 next to a person whose \<^verbatim>\<open>dob\<close> is the number 5 raises TypeError.
  And a relationship from \<^verbatim>\<open>true\<close> to \<^verbatim>\<open>1.0\<close>, neither of them a declared id, is accepted,
  because the membership test compares with \<^verbatim>\<open>==\<close>.
\<close>

theorem validate_pedigree_raises:
  "validate_pedigree
     (mk_pedigree example_people [mk_relationship (JList []) (JInt 1) ''parent''])
     = Inl TypeError
   \<and> validate_pedigree
     (mk_pedigree example_people
        [JObj [(''from'', JInt 1), (''to'', JInt 9), (''type'', JInt 5)]])
     = Inl AttributeError
   \<and> validate_pedigree
     (mk_pedigree
        [JObj [(''id'', JInt 1), (''name'', JStr ''A''), (''gender'', JStr ''M''),
               (''dob'', JInt 5), (''conditions'', JList [])]]
        [mk_relationship (JInt 1) (JInt 9) ''parent''])
     = Inl TypeError
   \<and> validate_pedigree
     (mk_pedigree example_people
        [mk_relationship (JBool True) (JFloat (Finite 1)) ''parent''])
     = Inr (True, None)"
  by code_simp

subsection \<open>Inheritance patterns\<close>

definition reverse_sibling_pedigree :: json where
  "reverse_sibling_pedigree =
     mk_pedigree
       [mk_person (JInt 1) ''A'' ''F'' ''approx'' [''x''],
        mk_person (JInt 2) ''B'' ''M'' ''approx'' [''x'']]
       [mk_relationship (JInt 2) (JInt 1) ''sibling'']"

definition self_parent_pedigree :: json where
  "self_parent_pedigree =
     mk_pedigree [mk_person (JInt 1) ''A'' ''F'' ''approx'' [''x'']]
       [mk_relationship (JInt 1) (JInt 1) ''parent'']"

text \<open>
  C2. The inference misses a sibling edge that runs from the larger id to the smaller one:
  two affected people 1 and 2 with the relationship \<^verbatim>\<open>{from: 2, to: 1, type: sibling}\<close> get
  no recessive flag, because the loop over the pairs \<^verbatim>\<open>i < j\<close> looks only for the edge from
  \<^verbatim>\<open>i\<close> to \<^verbatim>\<open>j\<close>. The dominant flag is emitted for a single affected person who has a
  parent edge to themselves, because the count is outside the test for two affected people
  and does not ask the neighbour to be another person. Both pedigrees pass validation.
\<close>

theorem infer_misses_reverse_sibling:
  "validate_pedigree reverse_sibling_pedigree = Inr (True, None)
   \<and> bindE (build_graph reverse_sibling_pedigree)
        (\<lambda>graph. infer_inheritance_patterns graph reverse_sibling_pedigree)
       = Inr [no_pattern_flag]
   \<and> validate_pedigree self_parent_pedigree = Inr (True, None)
   \<and> bindE (build_graph self_parent_pedigree)
        (\<lambda>graph. infer_inheritance_patterns graph self_parent_pedigree)
       = Inr [dominant_flag ''x'']"
  by code_simp

subsection \<open>Pseudonymization\<close>

definition people_of :: "json \<Rightarrow> py_error + json list" where
  "people_of pedigree = bindE (py_getitem pedigree ''people'') py_iter"

definition renamed_person :: "(json \<Rightarrow> string) \<Rightarrow> json \<Rightarrow> json \<Rightarrow> bool" where
  "renamed_person repr a b =
     (\<exists>pid. py_getitem a ''id'' = Inr pid
        \<and> py_getitem b ''name'' = Inr (JStr (''Person-'' @ py_format repr pid))
        \<and> (\<forall>k. k \<noteq> ''name'' \<longrightarrow> py_getitem b k = py_getitem a k))"

lemma pseudonymize_person_valid:
  assumes "valid_person a"
  shows "\<exists>b. pseudonymize_person repr a = Inr b \<and> renamed_person repr a b"
proof -
  from assms obtain kvs where a: "a = JObj kvs"
    by (cases a) (simp_all add: valid_person_def)
  from assms a obtain pid where pid: "map_of kvs ''id'' = Some pid"
    by (auto simp: valid_person_def required_keys_def)
  then show ?thesis
    by (simp add: a pseudonymize_person_def renamed_person_def update_conv')
qed

lemma mapE_pseudonymize:
  "list_all valid_person ps \<Longrightarrow>
   \<exists>qs. mapE (pseudonymize_person repr) ps = Inr qs \<and> list_all2 (renamed_person repr) ps qs"
proof (induction ps)
  case Nil
  show ?case by simp
next
  case (Cons a ps)
  then obtain b where "pseudonymize_person repr a = Inr b" "renamed_person repr a b"
    using pseudonymize_person_valid by fastforce
  moreover from Cons obtain qs where "mapE (pseudonymize_person repr) ps = Inr qs"
    "list_all2 (renamed_person repr) ps qs" by auto
  ultimately show ?case by simp
qed

text \<open>
  C8. For every pedigree that validation accepts, \<^verbatim>\<open>pseudonymize_pedigree\<close> returns a
  pedigree with as many people, in which every person's name is "Person-" followed by the
  text of that person's id and every other entry of the person (id, gender, dob, conditions
  and any further key) is the one of the input; every entry of the pedigree other than
  \<^verbatim>\<open>people\<close>, the relationships among them, is the one of the input. The result is a function
  of the input value, which the model never changes.
\<close>

theorem pseudonymize_names_only:
  assumes "validate_pedigree p = Inr (True, None)"
  shows "\<exists>q ps qs. pseudonymize_pedigree repr p = Inr q
     \<and> people_of p = Inr ps \<and> people_of q = Inr qs
     \<and> list_all2 (renamed_person repr) ps qs
     \<and> (\<forall>k. k \<noteq> ''people'' \<longrightarrow> py_getitem q k = py_getitem p k)"
proof -
  from validate_pedigree_True [OF assms] obtain kvs people ps where
    p: "p = JObj kvs" and
    people: "map_of kvs ''people'' = Some people" "py_iter people = Inr ps" "list_all valid_person ps"
    by blast
  from mapE_pseudonymize [OF people(3)] obtain qs where
    qs: "mapE (pseudonymize_person repr) ps = Inr qs" "list_all2 (renamed_person repr) ps qs"
    by blast
  show ?thesis
  proof (cases "is_list people")
    case True
    then have pl: "people = JList ps"
      using people(2) by (cases people) auto
    have "pseudonymize_pedigree repr p = Inr (JObj (AList.update ''people'' (JList qs) kvs))"
      using people(1) qs(1) by (simp add: pseudonymize_pedigree_def p pl)
    moreover have "people_of p = Inr ps"
      using people(1) by (simp add: people_of_def p pl)
    moreover have "people_of (JObj (AList.update ''people'' (JList qs) kvs)) = Inr qs"
      by (simp add: people_of_def update_conv')
    moreover have "\<forall>k. k \<noteq> ''people'' \<longrightarrow>
        py_getitem (JObj (AList.update ''people'' (JList qs) kvs)) k = py_getitem p k"
      by (simp add: p update_conv')
    ultimately show ?thesis using qs(2) by blast
  next
    case False
    with people have "ps = []" using py_iter_not_list_valid by blast
    with qs have "qs = []" by simp
    have "pseudonymize_pedigree repr p = Inr p"
      using people(1,2) False \<open>ps = []\<close>
      by (cases people) (simp_all add: pseudonymize_pedigree_def p)
    moreover have "people_of p = Inr []"
      using people(1,2) \<open>ps = []\<close> by (simp add: people_of_def p)
    ultimately show ?thesis using \<open>qs = []\<close> \<open>ps = []\<close> by auto
  qed
qed

theorem pseudonymize_names_only_witness:
  "validate_pedigree example_pedigree = Inr (True, None)
   \<and> (\<exists>q ps qs. pseudonymize_pedigree (\<lambda>v. []) example_pedigree = Inr q
        \<and> people_of example_pedigree = Inr ps \<and> people_of q = Inr qs
        \<and> list_all2 (renamed_person (\<lambda>v. [])) ps qs
        \<and> (\<forall>k. k \<noteq> ''people'' \<longrightarrow> py_getitem q k = py_getitem example_pedigree k))"
proof -
  have v: "validate_pedigree example_pedigree = Inr (True, None)"
    by code_simp
  from pseudonymize_names_only [OF v, of "\<lambda>v. []"] v show ?thesis
    by simp
qed

subsection \<open>The analysis and the identity fields\<close>

definition identity_fields :: "string list" where
  "identity_fields = [''name'', ''gender'', ''dob'']"

definition same_person_but_identity :: "json \<Rightarrow> json \<Rightarrow> bool" where
  "same_person_but_identity a b =
     (\<exists>kvs kvs'. a = JObj kvs \<and> b = JObj kvs'
        \<and> (\<forall>key. key \<in> set identity_fields \<or> map_of kvs key = map_of kvs' key))"

definition same_but_identity :: "json \<Rightarrow> json \<Rightarrow> bool" where
  "same_but_identity p q =
     (\<exists>kvs kvs' ps qs. p = JObj kvs \<and> q = JObj kvs'
        \<and> map_of kvs ''people'' = Some (JList ps) \<and> map_of kvs' ''people'' = Some (JList qs)
        \<and> list_all2 same_person_but_identity ps qs
        \<and> map_of kvs ''relationships'' = map_of kvs' ''relationships'')"

text \<open>Two graphs with the same nodes in the same order and the same edges.\<close>

definition same_shape :: "FallbackDiGraph \<Rightarrow> FallbackDiGraph \<Rightarrow> bool" where
  "same_shape g h = (map fst (nodes_data g) = map fst (nodes_data h) \<and> edge_data g = edge_data h)"

definition same_outcome :: "py_error + FallbackDiGraph \<Rightarrow> py_error + FallbackDiGraph \<Rightarrow> bool" where
  "same_outcome x y =
     (case (x, y) of
        (Inl e, Inl e') \<Rightarrow> e = e'
      | (Inr g, Inr h) \<Rightarrow> same_shape g h
      | _ \<Rightarrow> False)"

lemma same_person_fields:
  assumes "same_person_but_identity a b" and "key \<notin> set identity_fields"
  shows "py_getitem a key = py_getitem b key" and "py_get a key d = py_get b key d"
  using assms by (auto simp: same_person_but_identity_def)

lemma update_keys_same:
  "map fst al = map fst al' \<Longrightarrow> map fst (AList.update k v al) = map fst (AList.update k v' al')"
  by (simp add: update_keys)

lemma add_node_same:
  assumes "same_shape g h" and "same_person_but_identity a b"
  shows "same_outcome
           (bindE (py_getitem a ''id'')
              (\<lambda>pid. case a of JObj attrs \<Rightarrow> add_node g pid attrs | _ \<Rightarrow> Inl TypeError))
           (bindE (py_getitem b ''id'')
              (\<lambda>pid. case b of JObj attrs \<Rightarrow> add_node h pid attrs | _ \<Rightarrow> Inl TypeError))"
proof -
  from assms(2) obtain kvs kvs' where ab: "a = JObj kvs" "b = JObj kvs'"
    and eq: "\<And>key. key \<notin> set identity_fields \<Longrightarrow> map_of kvs key = map_of kvs' key"
    by (auto simp: same_person_but_identity_def)
  have k: "map_of kvs ''id'' = map_of kvs' ''id''" "map_of kvs ''self'' = map_of kvs' ''self''"
    "map_of kvs ''node'' = map_of kvs' ''node''"
    by (rule eq, simp add: identity_fields_def)+
  show ?thesis
  proof (cases "map_of kvs' ''id''")
    case None
    with k show ?thesis by (simp add: ab same_outcome_def)
  next
    case (Some pid)
    show ?thesis
    proof (cases "py_key pid")
      case (Inl e)
      with k Some show ?thesis by (simp add: ab same_outcome_def add_node_def)
    next
      case (Inr key)
      with k Some assms(1) show ?thesis
        by (simp add: ab same_outcome_def add_node_def same_shape_def update_keys)
    qed
  qed
qed

lemma add_people_same:
  "list_all2 same_person_but_identity ps qs \<Longrightarrow> same_shape g h \<Longrightarrow>
   same_outcome (add_people g ps) (add_people h qs)"
proof (induction ps qs arbitrary: g h rule: list_all2_induct)
  case Nil
  then show ?case by (simp add: same_outcome_def)
next
  case (Cons a ps b qs)
  let ?x = "bindE (py_getitem a ''id'')
              (\<lambda>pid. case a of JObj attrs \<Rightarrow> add_node g pid attrs | _ \<Rightarrow> Inl TypeError)"
  let ?y = "bindE (py_getitem b ''id'')
              (\<lambda>pid. case b of JObj attrs \<Rightarrow> add_node h pid attrs | _ \<Rightarrow> Inl TypeError)"
  have so: "same_outcome ?x ?y"
    using Cons.prems Cons.hyps(1) by (rule add_node_same)
  have x: "add_people g (a # ps) = bindE ?x (\<lambda>g'. add_people g' ps)"
    by (cases "py_getitem a ''id''") simp_all
  have y: "add_people h (b # qs) = bindE ?y (\<lambda>h'. add_people h' qs)"
    by (cases "py_getitem b ''id''") simp_all
  show ?case
  proof (cases ?x)
    case (Inl e)
    with so have "?y = Inl e" by (cases ?y) (simp_all add: same_outcome_def)
    with Inl x y show ?thesis by (simp add: same_outcome_def)
  next
    case (Inr g')
    with so obtain h' where h': "?y = Inr h'" "same_shape g' h'"
      by (cases ?y) (simp_all add: same_outcome_def)
    with Inr x y Cons.IH [OF h'(2)] show ?thesis by simp
  qed
qed

lemma add_relationships_same:
  "same_shape g h \<Longrightarrow> same_outcome (add_relationships g rs) (add_relationships h rs)"
proof (induction rs arbitrary: g h)
  case Nil
  then show ?case by (simp add: same_outcome_def)
next
  case (Cons r rs)
  show ?case
  proof (cases "bindE (py_getitem r ''from'') (\<lambda>from. bindE (py_getitem r ''to'') (\<lambda>to.
      bindE (py_getitem r ''type'') (\<lambda>ty. bindE (py_key from) (\<lambda>ku. bindE (py_key to) (\<lambda>kv.
      Inr ((ku, kv), [(''type'', ty)]))))))")
    case (Inl e)
    then show ?thesis
      by (auto simp: same_outcome_def add_edge_def bindE_eq_Inl bindE_eq_Inr)
  next
    case (Inr edge)
    then obtain ku kv attrs where
      g: "\<And>g. bindE (py_getitem r ''from'') (\<lambda>from. bindE (py_getitem r ''to'') (\<lambda>to.
            bindE (py_getitem r ''type'') (\<lambda>ty. add_edge g from to [(''type'', ty)])))
          = Inr (g\<lparr>edge_data := AList.update (ku, kv) attrs (edge_data g)\<rparr>)"
      by (auto simp: add_edge_def bindE_eq_Inr)
    have "same_shape (g\<lparr>edge_data := AList.update (ku, kv) attrs (edge_data g)\<rparr>)
            (h\<lparr>edge_data := AList.update (ku, kv) attrs (edge_data h)\<rparr>)"
      using Cons.prems by (simp add: same_shape_def)
    from Cons.IH [OF this] g [of g] g [of h] show ?thesis
      by (auto simp: bindE_eq_Inr split: sum.splits)
  qed
qed


lemma build_graph_same:
  assumes "same_but_identity p q"
  shows "same_outcome (build_graph p) (build_graph q)"
proof -
  from assms obtain kvs kvs' ps qs where
    pq: "p = JObj kvs" "q = JObj kvs'" and
    people: "map_of kvs ''people'' = Some (JList ps)" "map_of kvs' ''people'' = Some (JList qs)" and
    rel: "list_all2 same_person_but_identity ps qs" and
    rels: "map_of kvs ''relationships'' = map_of kvs' ''relationships''"
    by (auto simp: same_but_identity_def)
  have "same_shape empty_graph empty_graph"
    by (simp add: same_shape_def)
  with rel have so: "same_outcome (add_people empty_graph ps) (add_people empty_graph qs)"
    by (rule add_people_same)
  define rs where "rs = py_iter (case map_of kvs' ''relationships'' of None \<Rightarrow> JList [] | Some v \<Rightarrow> v)"
  have p: "build_graph p = bindE (add_people empty_graph ps) (\<lambda>g. bindE rs (add_relationships g))"
    using people rels by (simp add: build_graph_def pq rs_def)
  have q: "build_graph q = bindE (add_people empty_graph qs) (\<lambda>g. bindE rs (add_relationships g))"
    using people by (simp add: build_graph_def pq rs_def)
  show ?thesis
  proof (cases "add_people empty_graph ps")
    case (Inl e)
    with so have "add_people empty_graph qs = Inl e"
      by (cases "add_people empty_graph qs") (simp_all add: same_outcome_def)
    with Inl p q show ?thesis by (simp add: same_outcome_def)
  next
    case (Inr g)
    with so obtain h where h: "add_people empty_graph qs = Inr h" "same_shape g h"
      by (cases "add_people empty_graph qs") (simp_all add: same_outcome_def)
    show ?thesis
    proof (cases rs)
      case (Inl e)
      with Inr h p q show ?thesis by (simp add: same_outcome_def)
    next
      case (Inr rels)
      with \<open>add_people empty_graph ps = Inr g\<close> h p q add_relationships_same [OF h(2)]
      show ?thesis by simp
    qed
  qed
qed

lemma bindE_cong:
  "m = m' \<Longrightarrow> (\<And>x. m' = Inr x \<Longrightarrow> f x = f' x) \<Longrightarrow> bindE m f = bindE m' f'"
  by (cases m') simp_all

lemma has_edge_with_type_same:
  "edge_data g = edge_data h \<Longrightarrow> has_edge_with_type g = has_edge_with_type h"
  by (simp add: has_edge_with_type_def fun_eq_iff)

lemma successors_same: "edge_data g = edge_data h \<Longrightarrow> successors g = successors h"
  by (simp add: successors_def fun_eq_iff)

lemma sibling_pairs_of_same:
  "edge_data g = edge_data h \<Longrightarrow> sibling_pairs_of g i js n = sibling_pairs_of h i js n"
proof (induction js arbitrary: n)
  case Nil
  show ?case by simp
next
  case (Cons j js)
  then show ?case
    by (auto simp: has_edge_with_type_same [of g h] intro!: bindE_cong)
qed

lemma count_sibling_pairs_same:
  "edge_data g = edge_data h \<Longrightarrow> count_sibling_pairs g is js n = count_sibling_pairs h is js n"
proof (induction "is" arbitrary: n)
  case Nil
  show ?case by simp
next
  case (Cons i "is")
  then show ?case
    by (auto simp: sibling_pairs_of_same [of g h] intro!: bindE_cong)
qed

lemma parent_child_hits_of_same:
  "edge_data g = edge_data h \<Longrightarrow>
   parent_child_hits_of g i nbrs js n = parent_child_hits_of h i nbrs js n"
proof (induction nbrs arbitrary: n)
  case Nil
  show ?case by simp
next
  case (Cons nbr nbrs)
  then show ?case
    by (auto simp: has_edge_with_type_same [of g h] intro!: bindE_cong)
qed

lemma count_parent_child_hits_same:
  "edge_data g = edge_data h \<Longrightarrow>
   count_parent_child_hits g is js n = count_parent_child_hits h is js n"
proof (induction "is" arbitrary: n)
  case Nil
  show ?case by simp
next
  case (Cons i "is")
  then show ?case
    by (auto simp: parent_child_hits_of_same [of g h] successors_same [of g h] intro!: bindE_cong)
qed

lemma condition_flags_same:
  "edge_data g = edge_data h \<Longrightarrow> condition_flags g c ids flags = condition_flags h c ids flags"
  by (simp add: condition_flags_def count_sibling_pairs_same [of g h]
      count_parent_child_hits_same [of g h])

lemma conditions_flags_same:
  "edge_data g = edge_data h \<Longrightarrow> conditions_flags g cm flags = conditions_flags h cm flags"
proof (induction cm arbitrary: flags)
  case Nil
  show ?case by simp
next
  case (Cons entry cm)
  obtain c ids where entry: "entry = (c, ids)" by (cases entry)
  from Cons show ?case
    by (auto simp: entry condition_flags_same [of g h] intro!: bindE_cong)
qed

lemma add_people_conditions_same:
  "list_all2 same_person_but_identity ps qs \<Longrightarrow>
   add_people_conditions ps m = add_people_conditions qs m"
proof (induction ps qs arbitrary: m rule: list_all2_induct)
  case Nil
  show ?case by simp
next
  case (Cons a ps b qs)
  have c: "py_get a ''conditions'' (JList []) = py_get b ''conditions'' (JList [])"
    and i: "py_getitem a ''id'' = py_getitem b ''id''"
    using Cons.hyps(1) by (simp_all add: same_person_fields identity_fields_def)
  have "add_conditions a cs m' = add_conditions b cs m'" for cs m'
    by (induction cs arbitrary: m') (auto simp: i intro!: bindE_cong)
  with c Cons.IH show ?case
    by (auto intro!: bindE_cong)
qed

lemma condition_to_people_same:
  "same_but_identity p q \<Longrightarrow> condition_to_people p = condition_to_people q"
  by (auto simp: same_but_identity_def condition_to_people_def add_people_conditions_same)

lemma estimate_inbreeding_same:
  assumes "same_shape g h"
  shows "estimate_inbreeding so g = estimate_inbreeding so h"
proof -
  from assms have adj: "build_adjacency g = build_adjacency h"
    by (simp add: same_shape_def build_adjacency_def)
  from assms have "length (map fst (nodes_data g)) = length (map fst (nodes_data h))"
    by (simp only: same_shape_def)
  then have n: "number_of_nodes g = number_of_nodes h"
    by (simp add: number_of_nodes_def)
  show ?thesis
    by (simp only: estimate_inbreeding_def build_cycle_basis_fallback_def adj n)
qed

text \<open>
  C10. Two pedigrees whose people agree, person by person in list order, on every entry
  other than name, gender and dob (so on id and conditions), and whose relationships are
  the same, get the same analysis: the same inbreeding coefficient, flags, risk level and
  recommendations, or the same exception.
\<close>

theorem analysis_ignores_identity:
  assumes "same_but_identity p q"
  shows "analyze_pedigree set_order p = analyze_pedigree set_order q"
proof -
  have cm: "condition_to_people p = condition_to_people q"
    using assms by (rule condition_to_people_same)
  from build_graph_same [OF assms] show ?thesis
  proof (cases "build_graph p")
    case (Inl e)
    moreover from Inl \<open>same_outcome (build_graph p) (build_graph q)\<close>
    have "build_graph q = Inl e"
      by (cases "build_graph q") (simp_all add: same_outcome_def)
    ultimately show ?thesis by (simp add: analyze_pedigree_def)
  next
    case (Inr g)
    with \<open>same_outcome (build_graph p) (build_graph q)\<close> obtain h where
      h: "build_graph q = Inr h" "same_shape g h"
      by (cases "build_graph q") (simp_all add: same_outcome_def)
    have "estimate_inbreeding set_order g = estimate_inbreeding set_order h"
      using h(2) by (rule estimate_inbreeding_same)
    moreover have "infer_inheritance_patterns g p = infer_inheritance_patterns h q"
      using h(2) cm by (simp add: infer_inheritance_patterns_def same_shape_def
          conditions_flags_same [of g h])
    ultimately show ?thesis
      using Inr h(1) by (simp add: analyze_pedigree_def)
  qed
qed

definition other_identity_pedigree :: json where
  "other_identity_pedigree =
     mk_pedigree
       [mk_person (JInt 1) ''Zoe'' ''O'' ''2001-02-03'' [],
        mk_person (JInt 2) ''Yan'' ''F'' ''approx'' [''x'']]
       [mk_relationship (JInt 1) (JInt 2) ''spouse'']"

lemma example_same_but_identity: "same_but_identity example_pedigree other_identity_pedigree"
  by (simp add: same_but_identity_def example_pedigree_def other_identity_pedigree_def
      mk_pedigree_def example_people_def mk_person_def same_person_but_identity_def
      identity_fields_def)

theorem analysis_ignores_identity_witness:
  "same_but_identity example_pedigree other_identity_pedigree
   \<and> example_pedigree \<noteq> other_identity_pedigree
   \<and> analyze_pedigree id example_pedigree = analyze_pedigree id other_identity_pedigree"
  using analysis_ignores_identity [OF example_same_but_identity, of id] example_same_but_identity
  by (simp add: example_pedigree_def other_identity_pedigree_def mk_pedigree_def
      example_people_def mk_person_def)

subsection \<open>The cycle search and the inbreeding estimate\<close>

text \<open>
  The undirected view of the graph: two nodes are adjacent when an edge joins them in either
  direction. A cycle is a list of distinct nodes, each adjacent to the next and the last to
  the first, of length 1 (a self-loop) or at least 3.
\<close>

definition adjacent :: "FallbackDiGraph \<Rightarrow> pykey \<Rightarrow> pykey \<Rightarrow> bool" where
  "adjacent graph u v =
     ((u, v) \<in> fst ` set (edge_data graph) \<or> (v, u) \<in> fst ` set (edge_data graph))"

fun walk :: "FallbackDiGraph \<Rightarrow> pykey list \<Rightarrow> bool" where
  "walk graph [] = True"
| "walk graph [v] = True"
| "walk graph (u # v # rest) = (adjacent graph u v \<and> walk graph (v # rest))"

definition cycle :: "FallbackDiGraph \<Rightarrow> pykey list \<Rightarrow> bool" where
  "cycle graph p =
     (p \<noteq> [] \<and> distinct p \<and> walk graph p \<and> adjacent graph (last p) (hd p) \<and> length p \<noteq> 2)"

definition acyclic_undirected :: "FallbackDiGraph \<Rightarrow> bool" where
  "acyclic_undirected graph = (\<forall>p. \<not> cycle graph p)"

text \<open>What the search needs of the adjacency: every neighbour is a key, the neighbours of
  a node are listed once, and each is joined to the node by an edge of the graph.\<close>

definition adjacency_of :: "FallbackDiGraph \<Rightarrow> adjacency \<Rightarrow> bool" where
  "adjacency_of graph adj =
     (\<forall>u ns. map_of adj u = Some ns \<longrightarrow>
        distinct ns \<and> (\<forall>v\<in>set ns. map_of adj v \<noteq> None \<and> adjacent graph u v))"

definition edges_among :: "FallbackDiGraph \<Rightarrow> (pykey \<times> pykey) list \<Rightarrow> adjacency \<Rightarrow> bool" where
  "edges_among graph es adj =
     (\<forall>u ns. map_of adj u = Some ns \<longrightarrow>
        distinct ns \<and> (\<forall>v\<in>set ns. map_of adj v \<noteq> None \<and> ((u, v) \<in> set es \<or> (v, u) \<in> set es)))"

lemma map_of_setdefault_add:
  "map_of (setdefault_add adj u v) =
     (map_of adj)(u \<mapsto> set_add (case map_of adj u of None \<Rightarrow> [] | Some s \<Rightarrow> s) v)"
  by (simp add: setdefault_add_def update_conv')

lemma distinct_set_add: "distinct s \<Longrightarrow> distinct (set_add s x)"
  by (simp add: set_add_def)

lemma set_set_add: "set (set_add s x) = insert x (set s)"
  by (auto simp: set_add_def)

definition listed :: "(pykey \<times> pykey) list \<Rightarrow> (pykey \<Rightarrow> bool) \<Rightarrow> pykey \<Rightarrow> pykey list \<Rightarrow> bool" where
  "listed es is_key u ns =
     (distinct ns \<and> (\<forall>v\<in>set ns. is_key v \<and> ((u, v) \<in> set es \<or> (v, u) \<in> set es)))"

lemma listed_Nil: "listed es is_key u []"
  by (simp add: listed_def)

lemma listed_mono:
  "listed es is_key u ns \<Longrightarrow> (\<And>v. is_key v \<Longrightarrow> is_key' v) \<Longrightarrow> set es \<subseteq> set es' \<Longrightarrow>
   listed es' is_key' u ns"
  unfolding listed_def by blast

lemma listed_set_add:
  "listed es is_key u ns \<Longrightarrow> is_key v \<Longrightarrow> (u, v) \<in> set es \<or> (v, u) \<in> set es \<Longrightarrow>
   listed es is_key u (set_add ns v)"
  unfolding listed_def set_add_def by auto

lemma edges_among_listed:
  "edges_among graph es adj \<longleftrightarrow>
     (\<forall>u ns. map_of adj u = Some ns \<longrightarrow> listed es (\<lambda>v. map_of adj v \<noteq> None) u ns)"
  by (simp add: edges_among_def listed_def)

lemma edges_among_step:
  assumes "edges_among graph es adj"
  shows "edges_among graph (es @ [(u, v)])
           (setdefault_add (setdefault_add adj u v) v u)"
proof -
  let ?adj1 = "setdefault_add adj u v"
  let ?adj2 = "setdefault_add ?adj1 v u"
  let ?es = "es @ [(u, v)]"
  define is_key where "is_key x = (map_of adj x \<noteq> None)" for x
  define is_key2 where "is_key2 x = (map_of ?adj2 x \<noteq> None)" for x
  define base where "base x = (case map_of adj x of None \<Rightarrow> [] | Some s \<Rightarrow> s)" for x
  have keys: "is_key2 x \<longleftrightarrow> x = u \<or> x = v \<or> is_key x" for x
    by (simp add: is_key2_def is_key_def map_of_setdefault_add)
  have old: "listed es is_key x ms" if "map_of adj x = Some ms" for x ms
    using assms that unfolding edges_among_listed is_key_def by blast
  have base0: "listed es is_key x (base x)" for x
    by (cases "map_of adj x") (simp_all add: base_def listed_Nil old)
  have up: "listed ?es is_key2 x ms" if "listed es is_key x ms" for x ms
    using that by (rule listed_mono) (auto simp: keys)
  have base: "listed ?es is_key2 x (base x)" for x
    using base0 by (rule up)
  have uv: "listed ?es is_key2 u (set_add (base u) v)"
    using base by (rule listed_set_add) (simp_all add: keys)
  have vu: "listed ?es is_key2 v (set_add (base v) u)"
    using base by (rule listed_set_add) (simp_all add: keys)
  have uu: "listed ?es is_key2 v (set_add (set_add (base u) v) u)" if "u = v"
    using uv unfolding that by (rule listed_set_add) (simp_all add: keys)
  have m1: "map_of ?adj1 = (map_of adj)(u \<mapsto> set_add (base u) v)"
    by (simp add: map_of_setdefault_add base_def)
  have m2: "map_of ?adj2 =
      (map_of ?adj1)(v \<mapsto> set_add (case map_of ?adj1 v of None \<Rightarrow> [] | Some s \<Rightarrow> s) u)"
    by (simp add: map_of_setdefault_add)
  have "listed ?es is_key2 w ns" if w: "map_of ?adj2 w = Some ns" for w ns
  proof -
    consider (v) "w = v" "u = v" | (v') "w = v" "u \<noteq> v" | (u) "w \<noteq> v" "w = u"
      | (other) "w \<noteq> v" "w \<noteq> u" by blast
    then show ?thesis
    proof cases
      case v
      from w have "ns = set_add (set_add (base u) v) u"
        unfolding m2 m1 using v by simp
      with uu [OF v(2)] v(1) show ?thesis by simp
    next
      case v'
      from w have "ns = set_add (base v) u"
        unfolding m2 m1 using v' by (simp add: base_def)
      with vu v'(1) show ?thesis by simp
    next
      case u
      from w have "ns = set_add (base u) v"
        unfolding m2 m1 using u by simp
      with uv u(2) show ?thesis by simp
    next
      case other
      from w have "map_of adj w = Some ns"
        unfolding m2 m1 using other by simp
      then show ?thesis by (intro up old)
    qed
  qed
  then show ?thesis
    unfolding edges_among_listed is_key2_def by blast
qed

lemma edges_among_foldl:
  "edges_among graph es adj \<Longrightarrow>
   edges_among graph (es @ es')
     (foldl (\<lambda>adj uv. setdefault_add (setdefault_add adj (fst uv) (snd uv)) (snd uv) (fst uv))
        adj es')"
proof (induction es' arbitrary: es adj)
  case Nil
  then show ?case by simp
next
  case (Cons e es')
  obtain u v where e: "e = (u, v)" by (cases e)
  from Cons.prems have "edges_among graph (es @ [(u, v)])
      (setdefault_add (setdefault_add adj u v) v u)"
    by (rule edges_among_step)
  from Cons.IH [OF this] show ?case by (simp add: e)
qed

lemma build_adjacency_adjacency_of: "adjacency_of graph (build_adjacency graph)"
proof -
  have "edges_among graph [] (map (\<lambda>k. (k, [])) (map fst (nodes_data graph)))"
    by (auto simp: edges_among_def dest!: map_of_SomeD)
  from edges_among_foldl [OF this, of "map fst (edge_data graph)"]
  have e: "edges_among graph (map fst (edge_data graph)) (build_adjacency graph)"
    by (simp only: build_adjacency_def append_Nil)
  show ?thesis
    unfolding adjacency_of_def
  proof (intro allI impI)
    fix u ns
    assume "map_of (build_adjacency graph) u = Some ns"
    with e have d: "distinct ns" and
      n: "\<forall>v\<in>set ns. map_of (build_adjacency graph) v \<noteq> None
           \<and> ((u, v) \<in> set (map fst (edge_data graph)) \<or> (v, u) \<in> set (map fst (edge_data graph)))"
      unfolding edges_among_def by blast+
    from n have "\<forall>v\<in>set ns. map_of (build_adjacency graph) v \<noteq> None \<and> adjacent graph u v"
      by (simp add: adjacent_def)
    with d show "distinct ns \<and> (\<forall>v\<in>set ns. map_of (build_adjacency graph) v \<noteq> None \<and> adjacent graph u v)"
      by simp
  qed
qed

lemma adjacent_sym: "adjacent graph u v \<Longrightarrow> adjacent graph v u"
  by (auto simp: adjacent_def)

lemma walk_Cons: "walk graph (u # p) \<longleftrightarrow> walk graph p \<and> (p \<noteq> [] \<longrightarrow> adjacent graph u (hd p))"
  by (cases p) auto

lemma adjacent_commute: "adjacent graph u v = adjacent graph v u"
  by (auto simp: adjacent_def)

lemma walk_append:
  "walk graph (p @ q) \<longleftrightarrow>
     walk graph p \<and> walk graph q \<and> (p \<noteq> [] \<and> q \<noteq> [] \<longrightarrow> adjacent graph (last p) (hd q))"
proof (induction p)
  case Nil
  show ?case by simp
next
  case (Cons u p)
  have "walk graph ((u # p) @ q) \<longleftrightarrow>
      walk graph (p @ q) \<and> (p @ q \<noteq> [] \<longrightarrow> adjacent graph u (hd (p @ q)))"
    by (simp add: walk_Cons del: walk.simps(3))
  also have "\<dots> \<longleftrightarrow> walk graph (u # p) \<and> walk graph q
      \<and> (u # p \<noteq> [] \<and> q \<noteq> [] \<longrightarrow> adjacent graph (last (u # p)) (hd q))"
    by (cases "p = []") (auto simp add: Cons.IH walk_Cons hd_append simp del: walk.simps(3))
  finally show ?case .
qed

lemma walk_rev: "walk graph (rev p) = walk graph p"
proof (induction p)
  case Nil
  show ?case by simp
next
  case (Cons u p)
  have "walk graph (rev (u # p)) \<longleftrightarrow> walk graph p \<and> (p \<noteq> [] \<longrightarrow> adjacent graph (hd p) u)"
    by (simp add: walk_append Cons.IH last_rev del: walk.simps(3))
  also have "\<dots> \<longleftrightarrow> walk graph (u # p)"
    by (simp add: walk_Cons adjacent_commute [of graph u] del: walk.simps(3))
  finally show ?case .
qed

lemma tree_path_cycle:
  assumes c: "c \<noteq> []"
    and da: "distinct (c @ a)" and db: "distinct (c @ b)"
    and disj: "set a \<inter> set b = {}"
    and wa: "walk graph (c @ a)" and wb: "walk graph (c @ b)"
    and closing: "adjacent graph (last (c @ b)) (last (c @ a))"
    and len: "length a + length b \<ge> 2"
  shows "cycle graph (rev a @ last c # b)"
proof -
  from c obtain c' l where cl: "c = c' @ [l]"
    by (cases c rule: rev_cases) auto
  let ?q = "rev a @ l # b"
  have "distinct ?q"
    using da db disj by (auto simp: cl)
  moreover have "walk graph ?q"
  proof -
    from wa have "walk graph (l # a)"
      by (simp add: cl walk_append del: walk.simps(3))
    then have "walk graph a" and ja: "a \<noteq> [] \<longrightarrow> adjacent graph l (hd a)"
      by (simp_all add: walk_Cons del: walk.simps(3))
    from wb have "walk graph (c' @ l # b)"
      by (simp add: cl)
    then have "walk graph (l # b)"
      by (simp add: walk_append del: walk.simps(3))
    moreover have "walk graph (rev a)"
      using \<open>walk graph a\<close> by (simp add: walk_rev)
    moreover have "a \<noteq> [] \<longrightarrow> adjacent graph (last (rev a)) l"
      using ja by (simp add: last_rev adjacent_commute [of graph l])
    ultimately show ?thesis
      by (simp add: walk_append del: walk.simps(3))
  qed
  moreover have "last ?q = last (c @ b)"
    by (simp add: cl)
  moreover have "hd ?q = last (c @ a)"
    by (cases a rule: rev_cases) (simp_all add: cl)
  moreover have "length ?q \<noteq> 2"
    using len by simp
  ultimately show ?thesis
    using closing by (simp add: cycle_def cl)
qed

definition tree_inv ::
  "FallbackDiGraph \<Rightarrow> pykey \<Rightarrow> pykey set \<Rightarrow> pykey set \<Rightarrow> (pykey \<times> pykey) list
     \<Rightarrow> (pykey \<Rightarrow> pykey list) \<Rightarrow> bool" where
  "tree_inv graph r V D S P =
     (r \<in> D \<and> P r = [r]
      \<and> (\<forall>x\<in>D. P x \<noteq> [] \<and> hd (P x) = r \<and> last (P x) = x \<and> distinct (P x)
            \<and> walk graph (P x) \<and> (\<forall>y\<in>set (P x). y \<in> D \<and> prefix (P y) (P x)))
      \<and> (\<forall>x\<in>D. x \<noteq> r \<longrightarrow> (\<exists>y\<in>V. y \<in> D \<and> P x = P y @ [x]))
      \<and> (\<forall>e\<in>set S. fst e \<in> D \<and> (fst e = r \<or> (snd e \<in> D \<and> P (fst e) = P (snd e) @ [fst e]))))"

lemma chord_cycle:
  assumes inv: "tree_inv graph r V D S P"
    and x: "x \<in> D" and y: "y \<in> D" and xy: "x \<noteq> y"
    and adj: "adjacent graph y x"
    and nc: "P y \<noteq> P x @ [y]" and np: "P x \<noteq> P y @ [x]"
  shows "\<exists>p. cycle graph p"
proof -
  have px: "P x \<noteq> []" "hd (P x) = r" "last (P x) = x" "distinct (P x)" "walk graph (P x)"
    and py: "P y \<noteq> []" "hd (P y) = r" "last (P y) = y" "distinct (P y)" "walk graph (P y)"
    using inv x y by (simp_all add: tree_inv_def)
  have closed: "\<And>u z. u \<in> D \<Longrightarrow> z \<in> set (P u) \<Longrightarrow> z \<in> D \<and> prefix (P z) (P u)"
    using inv by (simp add: tree_inv_def)
  have lastP: "\<And>z. z \<in> D \<Longrightarrow> P z \<noteq> [] \<and> last (P z) = z"
    using inv by (simp add: tree_inv_def)
  define c where "c = longest_common_prefix (P x) (P y)"
  have cx: "prefix c (P x)" and cy: "prefix c (P y)"
    by (simp_all add: c_def longest_common_prefix_prefix1 longest_common_prefix_prefix2)
  then obtain a b where a: "P x = c @ a" and b: "P y = c @ b"
    by (auto elim!: prefixE)
  from px(1,2) obtain tx where "P x = r # tx" by (cases "P x") auto
  then have "prefix [r] (P x)" by simp
  moreover from py(1,2) obtain ty where "P y = r # ty" by (cases "P y") auto
  then have "prefix [r] (P y)" by simp
  ultimately have "prefix [r] c"
    unfolding c_def by (rule longest_common_prefix_max_prefix)
  then have cne: "c \<noteq> []" by auto
  have disj: "set a \<inter> set b = {}"
  proof (rule ccontr)
    assume "set a \<inter> set b \<noteq> {}"
    then obtain z where za: "z \<in> set a" and zb: "z \<in> set b" by blast
    from za a have "z \<in> set (P x)" by simp
    with closed [OF x] have zD: "z \<in> D" and zx: "prefix (P z) (P x)" by blast+
    from zb b have "z \<in> set (P y)" by simp
    with closed [OF y] have zy: "prefix (P z) (P y)" by blast
    from zx zy have "prefix (P z) c"
      unfolding c_def by (rule longest_common_prefix_max_prefix)
    moreover from lastP [OF zD] have "z \<in> set (P z)"
      by (metis last_in_set)
    ultimately have "z \<in> set c"
      by (auto simp: prefix_def)
    with za px(4) a show False by auto
  qed
  have len: "length a + length b \<ge> 2"
  proof (rule ccontr)
    assume n: "\<not> length a + length b \<ge> 2"
    show False
    proof (cases a)
      case Nil
      show False
      proof (cases b)
        case Nil
        with \<open>a = []\<close> a b px(3) py(3) xy show False by simp
      next
        case (Cons z bs)
        with n \<open>a = []\<close> have "b = [z]" by (cases bs) simp_all
        with \<open>a = []\<close> a b have "P y = P x @ [z]" by simp
        with py(3) nc show False by simp
      qed
    next
      case (Cons z as)
      with n have "a = [z]" and "b = []" by (cases as; cases b; simp)+
      with a b have "P x = P y @ [z]" by simp
      with px(3) np show False by simp
    qed
  qed
  have da: "distinct (c @ a)" and wa: "walk graph (c @ a)" and la: "last (c @ a) = x"
    using px(3,4,5) by (simp_all only: a)
  have db: "distinct (c @ b)" and wb: "walk graph (c @ b)" and lb: "last (c @ b) = y"
    using py(3,4,5) by (simp_all only: b)
  from adj have "adjacent graph (last (c @ b)) (last (c @ a))"
    by (simp only: la lb)
  with cne da db disj wa wb have "cycle graph (rev a @ last c # b)"
    using len by (rule tree_path_cycle)
  then show ?thesis by blast
qed

declare search_component.simps [simp del]

definition iteration_order :: "(pykey list \<Rightarrow> pykey list) \<Rightarrow> bool" where
  "iteration_order f = (\<forall>s. set (f s) = set s \<and> (distinct s \<longrightarrow> distinct (f s)))"

lemma tree_inv_mono:
  assumes "tree_inv graph r V D S P" and "V \<subseteq> V'" and "set S' \<subseteq> set S"
  shows "tree_inv graph r V' D S' P"
  using assms unfolding tree_inv_def by (meson subsetD)

lemma tree_inv_discover:
  assumes inv: "tree_inv graph r V D S P"
    and cur: "cur \<in> D" "cur \<in> V" and nbr: "nbr \<notin> D" and adj: "adjacent graph cur nbr"
  shows "tree_inv graph r V (insert nbr D) ((nbr, cur) # S) (P(nbr := P cur @ [nbr]))"
proof -
  define P' where "P' = P(nbr := P cur @ [nbr])"
  have same: "P' x = P x" if "x \<in> D" for x
    using that nbr by (auto simp: P'_def)
  have newp: "P' nbr = P cur @ [nbr]"
    by (simp add: P'_def)
  have root: "r \<in> D" "P r = [r]"
    using inv by (simp_all add: tree_inv_def)
  have node: "P x \<noteq> []" "hd (P x) = r" "last (P x) = x" "distinct (P x)" "walk graph (P x)"
    "\<And>y. y \<in> set (P x) \<Longrightarrow> y \<in> D \<and> prefix (P y) (P x)" if "x \<in> D" for x
    using inv that by (simp_all add: tree_inv_def)
  have par: "\<exists>y\<in>V. y \<in> D \<and> P x = P y @ [x]" if "x \<in> D" "x \<noteq> r" for x
    using inv that by (simp add: tree_inv_def)
  have ent: "fst e \<in> D \<and> (fst e = r \<or> (snd e \<in> D \<and> P (fst e) = P (snd e) @ [fst e]))"
    if "e \<in> set S" for e
    using inv that by (simp add: tree_inv_def)
  have nbr_path: "nbr \<notin> set (P cur)"
    using node(6) [OF cur(1)] nbr by blast
  have new: "P' nbr \<noteq> []" "hd (P' nbr) = r" "last (P' nbr) = nbr" "distinct (P' nbr)"
    "walk graph (P' nbr)"
    using node(1-5) [OF cur(1)] nbr_path adj
    by (simp_all add: newp walk_append del: walk.simps(3))
  have new_closed: "y \<in> insert nbr D \<and> prefix (P' y) (P' nbr)" if "y \<in> set (P' nbr)" for y
  proof (cases "y = nbr")
    case True
    then show ?thesis by simp
  next
    case False
    with that have "y \<in> set (P cur)" by (simp add: newp)
    with node(6) [OF cur(1)] have "y \<in> D" "prefix (P y) (P cur)" by blast+
    then show ?thesis by (simp add: newp same)
  qed
  have old_closed: "y \<in> insert nbr D \<and> prefix (P' y) (P' x)" if "x \<in> D" "y \<in> set (P' x)" for x y
  proof -
    from that(2) have "y \<in> set (P x)" unfolding same [OF that(1)] .
    with node(6) [OF that(1)] have "y \<in> D" "prefix (P y) (P x)" by blast+
    then show ?thesis by (simp add: same that(1))
  qed
  have c2: "\<forall>x\<in>insert nbr D. P' x \<noteq> [] \<and> hd (P' x) = r \<and> last (P' x) = x \<and> distinct (P' x)
      \<and> walk graph (P' x) \<and> (\<forall>y\<in>set (P' x). y \<in> insert nbr D \<and> prefix (P' y) (P' x))"
  proof
    fix x assume "x \<in> insert nbr D"
    then consider "x = nbr" | "x \<in> D" by blast
    then show "P' x \<noteq> [] \<and> hd (P' x) = r \<and> last (P' x) = x \<and> distinct (P' x)
      \<and> walk graph (P' x) \<and> (\<forall>y\<in>set (P' x). y \<in> insert nbr D \<and> prefix (P' y) (P' x))"
    proof cases
      case 1
      with new new_closed show ?thesis by blast
    next
      case 2
      with node(1-5) [OF 2] old_closed [OF 2] show ?thesis
        by (simp only: same [OF 2]) blast
    qed
  qed
  have c3: "\<forall>x\<in>insert nbr D. x \<noteq> r \<longrightarrow> (\<exists>y\<in>V. y \<in> insert nbr D \<and> P' x = P' y @ [x])"
  proof (intro ballI impI)
    fix x assume "x \<in> insert nbr D" "x \<noteq> r"
    then consider "x = nbr" | "x \<in> D" by blast
    then show "\<exists>y\<in>V. y \<in> insert nbr D \<and> P' x = P' y @ [x]"
    proof cases
      case 1
      with cur show ?thesis by (intro bexI [of _ cur]) (simp_all add: same newp)
    next
      case 2
      from par [OF 2 \<open>x \<noteq> r\<close>] obtain y where "y \<in> V" "y \<in> D" "P x = P y @ [x]" by blast
      with 2 show ?thesis by (intro bexI [of _ y]) (simp_all add: same)
    qed
  qed
  have c4: "\<forall>e\<in>set ((nbr, cur) # S). fst e \<in> insert nbr D
      \<and> (fst e = r \<or> (snd e \<in> insert nbr D \<and> P' (fst e) = P' (snd e) @ [fst e]))"
  proof
    fix e assume "e \<in> set ((nbr, cur) # S)"
    then consider "e = (nbr, cur)" | "e \<in> set S" by auto
    then show "fst e \<in> insert nbr D
      \<and> (fst e = r \<or> (snd e \<in> insert nbr D \<and> P' (fst e) = P' (snd e) @ [fst e]))"
    proof cases
      case 1
      with cur show ?thesis by (simp add: same newp)
    next
      case 2
      from ent [OF 2] show ?thesis by (auto simp: same)
    qed
  qed
  from root c2 c3 c4 have "tree_inv graph r V (insert nbr D) ((nbr, cur) # S) P'"
    unfolding tree_inv_def by (simp add: same)
  then show ?thesis
    by (simp only: P'_def)
qed

lemma self_loop_cycle: "adjacent graph v v \<Longrightarrow> cycle graph [v]"
  by (simp add: cycle_def)

lemma no_back_edge:
  assumes acyc: "acyclic_undirected graph"
    and inv: "tree_inv graph r V D ((cur, par) # S) P"
    and nbr: "nbr \<in> D" "nbr \<noteq> par" and adj: "adjacent graph cur nbr"
    and child: "P nbr \<noteq> P cur @ [nbr]"
  shows False
proof -
  have cur: "cur \<in> D" and link: "cur = r \<or> (par \<in> D \<and> P cur = P par @ [cur])"
    using inv by (simp_all add: tree_inv_def)
  have lastP: "P z \<noteq> [] \<and> last (P z) = z" if "z \<in> D" for z
    using inv that by (simp add: tree_inv_def)
  have root: "P r = [r]"
    using inv by (simp add: tree_inv_def)
  show False
  proof (cases "nbr = cur")
    case True
    with adj have "cycle graph [cur]" by (simp add: self_loop_cycle)
    with acyc show False by (simp add: acyclic_undirected_def)
  next
    case False
    have np: "P cur \<noteq> P nbr @ [cur]"
    proof
      assume eq: "P cur = P nbr @ [cur]"
      from link show False
      proof
        assume "cur = r"
        with eq root lastP [OF nbr(1)] show False by simp
      next
        assume "par \<in> D \<and> P cur = P par @ [cur]"
        with eq have "par \<in> D" "P par = P nbr" by simp_all
        with lastP [OF nbr(1)] lastP [of par] have "par = nbr" by metis
        with nbr(2) show False by simp
      qed
    qed
    from inv cur nbr(1) have "\<exists>p. cycle graph p"
    proof (rule chord_cycle)
      show "cur \<noteq> nbr" using False by simp
      show "adjacent graph nbr cur" using adj by (rule adjacent_sym)
      show "P nbr \<noteq> P cur @ [nbr]" by (rule child)
      show "P cur \<noteq> P nbr @ [cur]" by (rule np)
    qed
    with acyc show False by (simp add: acyclic_undirected_def)
  qed
qed

lemma dom_parent_update:
  "dom (map_of (AList.update k v al)) = insert k (dom (map_of al))"
  by (simp add: update_conv')

lemma visit_neighbours_tree:
  assumes acyc: "acyclic_undirected graph" and cur: "cur \<in> V"
  shows "distinct ns \<Longrightarrow> \<forall>v\<in>set ns. adjacent graph cur v \<Longrightarrow>
    tree_inv graph r V (dom (map_of (parent s))) ((cur, par) # stack s) P \<Longrightarrow>
    \<forall>x\<in>dom (map_of (parent s)). P x = P cur @ [x] \<longrightarrow> x \<notin> set ns \<Longrightarrow>
    cycles (visit_neighbours cur par ns s) = cycles s
    \<and> (\<exists>P'. tree_inv graph r V (dom (map_of (parent (visit_neighbours cur par ns s))))
              ((cur, par) # stack (visit_neighbours cur par ns s)) P')"
proof (induction ns arbitrary: s P)
  case Nil
  then show ?case by auto
next
  case (Cons nbr rest)
  let ?D = "dom (map_of (parent s))"
  have rest: "distinct rest" "\<forall>v\<in>set rest. adjacent graph cur v"
    using Cons.prems(1,2) by simp_all
  have adj: "adjacent graph cur nbr"
    using Cons.prems(2) by simp
  have curD: "cur \<in> ?D"
    using Cons.prems(3) by (simp add: tree_inv_def)
  show ?case
  proof (cases "nbr = par")
    case True
    have "\<forall>x\<in>?D. P x = P cur @ [x] \<longrightarrow> x \<notin> set rest"
      using Cons.prems(4) by simp
    from Cons.IH [OF rest Cons.prems(3) this] True show ?thesis by simp
  next
    case False
    show ?thesis
    proof (cases "map_of (parent s) nbr")
      case (Some p)
      then have "nbr \<in> ?D" by blast
      moreover from this Cons.prems(4) have "P nbr \<noteq> P cur @ [nbr]" by auto
      ultimately have False
        using no_back_edge [OF acyc Cons.prems(3) _ False adj] by blast
      then show ?thesis ..
    next
      case None
      then have nbrD: "nbr \<notin> ?D" by blast
      let ?s = "s\<lparr>parent := AList.update nbr cur (parent s), stack := (nbr, cur) # stack s\<rparr>"
      let ?P = "P(nbr := P cur @ [nbr])"
      have "tree_inv graph r V (insert nbr ?D) ((nbr, cur) # (cur, par) # stack s) ?P"
        using Cons.prems(3) curD cur nbrD adj by (rule tree_inv_discover)
      then have "tree_inv graph r V (insert nbr ?D) ((cur, par) # (nbr, cur) # stack s) ?P"
        by (rule tree_inv_mono) auto
      then have inv': "tree_inv graph r V (dom (map_of (parent ?s))) ((cur, par) # stack ?s) ?P"
        by (simp add: dom_parent_update)
      have "cur \<noteq> nbr" using curD nbrD by blast
      have ch: "\<forall>x\<in>dom (map_of (parent ?s)). ?P x = ?P cur @ [x] \<longrightarrow> x \<notin> set rest"
      proof (intro ballI impI)
        fix x assume x: "x \<in> dom (map_of (parent ?s))" and px: "?P x = ?P cur @ [x]"
        show "x \<notin> set rest"
        proof (cases "x = nbr")
          case True
          with Cons.prems(1) show ?thesis by simp
        next
          case False
          with x have "x \<in> ?D" by (simp add: dom_parent_update)
          moreover from px False \<open>cur \<noteq> nbr\<close> have "P x = P cur @ [x]" by simp
          ultimately show ?thesis using Cons.prems(4) by auto
        qed
      qed
      from Cons.IH [OF rest inv' ch] None False show ?thesis by simp
    qed
  qed
qed

lemma search_component_Nil:
  "stack s = [] \<Longrightarrow> search_component set_order adj visited s = Inr (visited, cycles s)"
  by (subst search_component.simps) simp

lemma search_component_visited:
  "stack s = (cur, par) # rest \<Longrightarrow> cur \<in> set visited \<Longrightarrow>
   search_component set_order adj visited s
     = search_component set_order adj visited (s\<lparr>stack := rest\<rparr>)"
  by (subst search_component.simps) simp

lemma search_component_KeyError:
  "stack s = (cur, par) # rest \<Longrightarrow> cur \<notin> set visited \<Longrightarrow> map_of adj cur = None \<Longrightarrow>
   search_component set_order adj visited s = Inl KeyError"
  by (subst search_component.simps) simp

lemma search_component_visit:
  "stack s = (cur, par) # rest \<Longrightarrow> cur \<notin> set visited \<Longrightarrow> map_of adj cur = Some nbrs \<Longrightarrow>
   search_component set_order adj visited s
     = search_component set_order adj (visited @ [cur])
         (visit_neighbours cur par (set_order nbrs) (s\<lparr>stack := rest\<rparr>))"
  by (subst search_component.simps) simp

lemma search_component_acyclic:
  assumes acyc: "acyclic_undirected graph"
  shows "adjacency_of graph adj \<Longrightarrow> iteration_order set_order \<Longrightarrow>
         tree_inv graph r (set visited) (dom (map_of (parent s))) (stack s) P \<Longrightarrow>
         search_component set_order adj visited s = Inr (visited', found) \<Longrightarrow>
         found = cycles s"
proof (induction set_order adj visited s arbitrary: P rule: search_component.induct)
  case (1 set_order adj visited s)
  note adj = "1.prems"(1) and ord = "1.prems"(2) and inv = "1.prems"(3) and res = "1.prems"(4)
  show ?case
  proof (cases "stack s")
    case Nil
    with res show ?thesis
      by (simp add: search_component_Nil)
  next
    case (Cons e rest)
    obtain cur par where e: "e = (cur, par)" by (cases e)
    have st: "stack s = (cur, par) # rest"
      by (simp only: Cons e)
    show ?thesis
    proof (cases "cur \<in> set visited")
      case True
      from inv have "tree_inv graph r (set visited) (dom (map_of (parent s))) (e # rest) P"
        by (simp add: Cons)
      then have "tree_inv graph r (set visited) (dom (map_of (parent s))) rest P"
        by (rule tree_inv_mono) auto
      then have "tree_inv graph r (set visited) (dom (map_of (parent (s\<lparr>stack := rest\<rparr>))))
              (stack (s\<lparr>stack := rest\<rparr>)) P"
        by simp
      moreover have "search_component set_order adj visited (s\<lparr>stack := rest\<rparr>)
          = Inr (visited', found)"
        using res by (simp only: search_component_visited [OF st True])
      ultimately have "found = cycles (s\<lparr>stack := rest\<rparr>)"
        using "1.IH"(1) [OF Cons e [symmetric] True adj ord] by blast
      then show ?thesis by simp
    next
      case False
      show ?thesis
      proof (cases "map_of adj cur")
        case None
        from st False None have "search_component set_order adj visited s = Inl KeyError"
          by (rule search_component_KeyError)
        with res have "(Inl KeyError :: py_error + (pykey list \<times> pykey list list))
            = Inr (visited', found)"
          by (simp only:)
        then show ?thesis by (simp only: sum.distinct)
      next
        case (Some nbrs)
        let ?s0 = "s\<lparr>stack := rest\<rparr>"
        let ?s1 = "visit_neighbours cur par (set_order nbrs) ?s0"
        let ?V = "set (visited @ [cur])"
        from adj Some have nb: "distinct nbrs" "\<forall>v\<in>set nbrs. adjacent graph cur v"
          unfolding adjacency_of_def by blast+
        from ord have so: "set (set_order nbrs) = set nbrs" "distinct nbrs \<longrightarrow> distinct (set_order nbrs)"
          unfolding iteration_order_def by blast+
        from so nb have o: "distinct (set_order nbrs)" "\<forall>v\<in>set (set_order nbrs). adjacent graph cur v"
          by blast+
        from inv have "tree_inv graph r (set visited) (dom (map_of (parent s))) ((cur, par) # rest) P"
          by (simp only: st)
        then have "tree_inv graph r ?V (dom (map_of (parent s))) ((cur, par) # rest) P"
          by (rule tree_inv_mono) auto
        then have inv0: "tree_inv graph r ?V (dom (map_of (parent ?s0))) ((cur, par) # stack ?s0) P"
          by simp
        have nochild: "\<forall>x\<in>dom (map_of (parent ?s0)). P x = P cur @ [x] \<longrightarrow> x \<notin> set (set_order nbrs)"
        proof (intro ballI impI)
          fix x assume x: "x \<in> dom (map_of (parent ?s0))" and px: "P x = P cur @ [x]"
          have inv: "tree_inv graph r (set visited) (dom (map_of (parent s))) (stack s) P"
            by (rule inv)
          from x have xD: "x \<in> dom (map_of (parent s))" by simp
          have curD: "cur \<in> dom (map_of (parent s))"
            using inv unfolding tree_inv_def st by auto
          have lastP: "P z \<noteq> [] \<and> last (P z) = z" if "z \<in> dom (map_of (parent s))" for z
            using inv that unfolding tree_inv_def by blast
          have "x \<noteq> r"
          proof
            assume "x = r"
            moreover from inv have "P r = [r]" unfolding tree_inv_def by blast
            ultimately have "[r] = P cur @ [r]" using px by (simp only:)
            with lastP [OF curD] show False by simp
          qed
          with inv xD obtain y where y: "y \<in> set visited" "y \<in> dom (map_of (parent s))"
            "P x = P y @ [x]"
            unfolding tree_inv_def by blast
          with px have "P y @ [x] = P cur @ [x]" by (simp only:)
          then have "last (P y) = last (P cur)" by simp
          moreover have "last (P y) = y" "last (P cur) = cur"
            using lastP [OF y(2)] lastP [OF curD] by blast+
          ultimately have "y = cur" by (simp only:)
          with y(1) False show "x \<notin> set (set_order nbrs)" by blast
        qed
        have "cur \<in> ?V" by simp
        from visit_neighbours_tree [OF acyc this o inv0 nochild]
        obtain P' where c: "cycles ?s1 = cycles ?s0"
          and inv1: "tree_inv graph r ?V (dom (map_of (parent ?s1))) ((cur, par) # stack ?s1) P'"
          by blast
        from inv1 have inv2: "tree_inv graph r ?V (dom (map_of (parent ?s1))) (stack ?s1) P'"
          by (rule tree_inv_mono) auto
        have "search_component set_order adj (visited @ [cur]) ?s1 = Inr (visited', found)"
          using res by (simp only: search_component_visit [OF st False Some])
        with "1.IH"(2) [OF Cons e [symmetric] False Some adj ord inv2]
        have "found = cycles ?s1" by blast
        with c show ?thesis by simp
      qed
    qed
  qed
qed

lemma search_roots_acyclic:
  assumes acyc: "acyclic_undirected graph" and adj: "adjacency_of graph adj"
    and ord: "iteration_order set_order"
  shows "search_roots set_order adj nodes visited found = Inr found' \<Longrightarrow> found' = found"
proof (induction nodes arbitrary: visited found)
  case Nil
  then show ?case by simp
next
  case (Cons node nodes)
  show ?case
  proof (cases "node \<in> set visited")
    case True
    with Cons show ?thesis by simp
  next
    case False
    let ?s = "\<lparr>stack = [(node, KNone)], parent = [(node, KNone)], cycles = found\<rparr>"
    from Cons.prems False obtain visited1 found1 where
      sc: "search_component set_order adj visited ?s = Inr (visited1, found1)" and
      sr: "search_roots set_order adj nodes visited1 found1 = Inr found'"
      by (auto simp: bindE_eq_Inr)
    have "tree_inv graph node (set visited) (dom (map_of (parent ?s))) (stack ?s) (\<lambda>x. [node])"
      by (simp add: tree_inv_def)
    from search_component_acyclic [OF acyc adj ord this sc] have "found1 = found" by simp
    with Cons.IH [OF sr] show ?thesis by simp
  qed
qed

lemma visit_neighbours_stack:
  "fst ` set (stack (visit_neighbours cur par ns s)) \<subseteq> fst ` set (stack s) \<union> set ns"
proof (induction ns arbitrary: s)
  case Nil
  show ?case by simp
next
  case (Cons nbr ns)
  let ?found = "s\<lparr>cycles := cycles s @ [[cur, nbr]]\<rparr>"
  let ?pushed = "s\<lparr>parent := AList.update nbr cur (parent s), stack := (nbr, cur) # stack s\<rparr>"
  have 1: "fst ` set (stack (visit_neighbours cur par ns s)) \<subseteq> fst ` set (stack s) \<union> set (nbr # ns)"
    using Cons.IH [of s] by auto
  have 2: "fst ` set (stack (visit_neighbours cur par ns ?found)) \<subseteq> fst ` set (stack s) \<union> set (nbr # ns)"
    using Cons.IH [of ?found] by auto
  have 3: "fst ` set (stack (visit_neighbours cur par ns ?pushed)) \<subseteq> fst ` set (stack s) \<union> set (nbr # ns)"
    using Cons.IH [of ?pushed] by auto
  show ?case
  proof (cases "nbr = par")
    case True
    with 1 show ?thesis by simp
  next
    case False
    show ?thesis
    proof (cases "map_of (parent s) nbr")
      case None
      with False 3 show ?thesis by simp
    next
      case (Some y)
      with False 2 show ?thesis by simp
    qed
  qed
qed

lemma search_component_total:
  "adjacency_of graph adj \<Longrightarrow> iteration_order set_order \<Longrightarrow>
   \<forall>x\<in>fst ` set (stack s). map_of adj x \<noteq> None \<Longrightarrow>
   \<exists>res. search_component set_order adj visited s = Inr res"
proof (induction set_order adj visited s rule: search_component.induct)
  case (1 set_order adj visited s)
  note adj = "1.prems"(1) and ord = "1.prems"(2) and keys = "1.prems"(3)
  show ?case
  proof (cases "stack s")
    case Nil
    then show ?thesis
      by (simp add: search_component_Nil)
  next
    case (Cons e rest)
    obtain cur par where e: "e = (cur, par)" by (cases e)
    have st: "stack s = (cur, par) # rest"
      by (simp only: Cons e)
    show ?thesis
    proof (cases "cur \<in> set visited")
      case True
      have "\<forall>x\<in>fst ` set (stack (s\<lparr>stack := rest\<rparr>)). map_of adj x \<noteq> None"
        using keys Cons by simp
      from "1.IH"(1) [OF Cons e [symmetric] True adj ord this] show ?thesis
        by (simp only: search_component_visited [OF st True])
    next
      case False
      from keys Cons e obtain nbrs where Some: "map_of adj cur = Some nbrs"
        by auto
      let ?s1 = "visit_neighbours cur par (set_order nbrs) (s\<lparr>stack := rest\<rparr>)"
      have "\<forall>x\<in>fst ` set (stack ?s1). map_of adj x \<noteq> None"
      proof
        fix x assume "x \<in> fst ` set (stack ?s1)"
        with visit_neighbours_stack [of cur par "set_order nbrs" "s\<lparr>stack := rest\<rparr>"]
        have "x \<in> fst ` set rest \<or> x \<in> set (set_order nbrs)" by auto
        then show "map_of adj x \<noteq> None"
        proof
          assume "x \<in> fst ` set rest"
          with keys Cons show ?thesis by auto
        next
          assume "x \<in> set (set_order nbrs)"
          moreover from ord have "set (set_order nbrs) = set nbrs"
            unfolding iteration_order_def by blast
          ultimately have "x \<in> set nbrs" by (simp only:)
          with adj Some show ?thesis unfolding adjacency_of_def by blast
        qed
      qed
      from "1.IH"(2) [OF Cons e [symmetric] False Some adj ord this] show ?thesis
        by (simp only: search_component_visit [OF st False Some])
    qed
  qed
qed

lemma search_roots_total:
  assumes adj: "adjacency_of graph adj" and ord: "iteration_order set_order"
  shows "\<forall>x\<in>set nodes. map_of adj x \<noteq> None \<Longrightarrow>
         \<exists>res. search_roots set_order adj nodes visited found = Inr res"
proof (induction nodes arbitrary: visited found)
  case Nil
  show ?case by simp
next
  case (Cons node nodes)
  show ?case
  proof (cases "node \<in> set visited")
    case True
    with Cons show ?thesis by simp
  next
    case False
    let ?s = "\<lparr>stack = [(node, KNone)], parent = [(node, KNone)], cycles = found\<rparr>"
    have "\<forall>x\<in>fst ` set (stack ?s). map_of adj x \<noteq> None"
      using Cons.prems by simp
    from search_component_total [OF adj ord this, of visited]
    obtain visited1 found1 where "search_component set_order adj visited ?s = Inr (visited1, found1)"
      by fastforce
    moreover from Cons have "\<exists>res. search_roots set_order adj nodes visited1 found1 = Inr res"
      by simp
    ultimately show ?thesis using False by auto
  qed
qed

lemma round_half_even_bounds:
  assumes "0 \<le> y" and "y \<le> of_int n"
  shows "0 \<le> round_half_even y \<and> round_half_even y \<le> n"
proof -
  define f where "f = \<lfloor>y\<rfloor>"
  have f0: "0 \<le> f" using assms(1) by (simp add: f_def)
  have fn: "f \<le> n" using assms(2) by (simp add: f_def floor_le_iff)
  have up: "f + 1 \<le> n" if "y - of_int f > 0"
  proof -
    from that have "of_int f < y" by simp
    with assms(2) have "(of_int f :: rat) < of_int n" by linarith
    then show ?thesis by simp
  qed
  have "round_half_even y = f \<or> (round_half_even y = f + 1 \<and> y - of_int f > 0)"
    by (auto simp: round_half_even_def Let_def f_def)
  with f0 fn up show ?thesis by auto
qed

lemma py_round4_bounds:
  assumes "0 \<le> x" and "x \<le> 1 / 4"
  shows "0 \<le> py_round4 x \<and> py_round4 x \<le> 1 / 4"
proof -
  have "0 \<le> x * 10000" using assms(1) by simp
  moreover have "x * 10000 \<le> of_int 2500" using assms(2) by simp
  ultimately have "0 \<le> round_half_even (x * 10000) \<and> round_half_even (x * 10000) \<le> 2500"
    by (rule round_half_even_bounds)
  then have "0 \<le> (of_int (round_half_even (x * 10000)) :: rat)"
    and "(of_int (round_half_even (x * 10000)) :: rat) \<le> 2500"
    by simp_all
  then show ?thesis
    by (simp add: py_round4_def)
qed

lemma build_cycle_basis_fallback_total:
  assumes "iteration_order set_order"
  shows "\<exists>found. build_cycle_basis_fallback set_order graph = Inr found"
proof -
  let ?adj = "build_adjacency graph"
  have "\<forall>x\<in>set (map fst ?adj). map_of ?adj x \<noteq> None"
    by (simp add: map_of_eq_None_iff)
  from search_roots_total [OF build_adjacency_adjacency_of assms this, of "[]" "[]"]
  show ?thesis
    by (simp add: build_cycle_basis_fallback_def Let_def)
qed

lemma build_cycle_basis_fallback_acyclic:
  assumes "iteration_order set_order" and "acyclic_undirected graph"
    and "build_cycle_basis_fallback set_order graph = Inr found"
  shows "found = []"
  using search_roots_acyclic [OF assms(2) build_adjacency_adjacency_of assms(1),
      of "map fst (build_adjacency graph)" "[]" "[]" found] assms(3)
  by (simp add: build_cycle_basis_fallback_def Let_def)

lemma acyclic_empty_graph: "acyclic_undirected empty_graph"
  by (simp add: acyclic_undirected_def cycle_def adjacent_def empty_graph_def)

text \<open>
  C6. For every graph, and every order in which the adjacency sets are iterated, the
  estimate is returned (no KeyError and no division by zero, also with zero nodes) and lies
  between 0 and 0.25; it is exactly 0 when the undirected graph has no cycle, where a cycle
  is a self-loop or a closed path of at least three distinct nodes; and it is 0 for the
  empty graph. The floats of the source are computed here with exact rational arithmetic.
\<close>

theorem estimate_inbreeding_bounds:
  assumes "iteration_order set_order"
  shows "(\<exists>x. estimate_inbreeding set_order graph = Inr x \<and> 0 \<le> x \<and> x \<le> 1 / 4
            \<and> (acyclic_undirected graph \<longrightarrow> x = 0))
         \<and> estimate_inbreeding set_order empty_graph = Inr 0"
proof -
  have main: "\<exists>x. estimate_inbreeding set_order g = Inr x \<and> 0 \<le> x \<and> x \<le> 1 / 4
            \<and> (acyclic_undirected g \<longrightarrow> x = 0)" for g
  proof -
    from build_cycle_basis_fallback_total [OF assms] obtain found where
      found: "build_cycle_basis_fallback set_order g = Inr found" by blast
    show ?thesis
    proof (cases "found = []")
      case True
      with found show ?thesis by (simp add: estimate_inbreeding_def)
    next
      case False
      define q :: rat where
        "q = of_nat (sum_list (map length found)) / of_nat (max 1 (number_of_nodes g))"
      have "(of_nat (max 1 (number_of_nodes g)) :: rat) \<noteq> 0" by simp
      then have e: "estimate_inbreeding set_order g = Inr (py_round4 (min (1 / 4) (q * (1 / 32))))"
        using found False by (simp add: estimate_inbreeding_def py_truediv_def q_def Let_def)
      have "0 \<le> q" by (simp add: q_def)
      then have "0 \<le> min (1 / 4) (q * (1 / 32))" and "min (1 / 4) (q * (1 / 32)) \<le> 1 / 4"
        by simp_all
      then have b: "0 \<le> py_round4 (min (1 / 4) (q * (1 / 32)))
          \<and> py_round4 (min (1 / 4) (q * (1 / 32))) \<le> 1 / 4"
        by (rule py_round4_bounds)
      have "\<not> acyclic_undirected g"
        using build_cycle_basis_fallback_acyclic [OF assms _ found] False by blast
      with e b show ?thesis by simp
    qed
  qed
  from main [of empty_graph] acyclic_empty_graph
  have "estimate_inbreeding set_order empty_graph = Inr 0" by auto
  with main [of graph] show ?thesis by simp
qed

definition pair_graph :: FallbackDiGraph where
  "pair_graph =
     \<lparr>nodes_data = [(KNum (Finite 1), []), (KNum (Finite 2), [])],
      edge_data = [((KNum (Finite 1), KNum (Finite 2)), [(''type'', JStr ''spouse'')])]\<rparr>"

definition triangle_graph :: FallbackDiGraph where
  "triangle_graph =
     \<lparr>nodes_data = [(KNum (Finite 1), []), (KNum (Finite 2), []), (KNum (Finite 3), [])],
      edge_data = [((KNum (Finite 1), KNum (Finite 2)), [(''type'', JStr ''spouse'')]),
                   ((KNum (Finite 2), KNum (Finite 3)), [(''type'', JStr ''parent'')]),
                   ((KNum (Finite 3), KNum (Finite 1)), [(''type'', JStr ''child'')])]\<rparr>"

lemma walk_nodes:
  "walk graph p \<Longrightarrow> length p \<ge> 2 \<Longrightarrow> \<forall>u\<in>set p. \<exists>v. adjacent graph u v"
proof (induction p rule: walk.induct)
  case (3 graph u v rest)
  have uv: "adjacent graph u v" and vu: "adjacent graph v u"
    using "3.prems"(1) by (auto dest: adjacent_sym)
  show ?case
  proof (cases rest)
    case Nil
    with uv vu show ?thesis by auto
  next
    case (Cons w rest')
    with "3.IH" "3.prems"(1) have "\<forall>x\<in>set (v # rest). \<exists>y. adjacent graph x y" by simp
    with uv show ?thesis by auto
  qed
qed simp_all

lemma cycle_nodes:
  assumes "cycle graph p"
  shows "\<forall>u\<in>set p. \<exists>v. adjacent graph u v"
proof (cases "length p \<ge> 2")
  case True
  moreover from assms have "walk graph p" by (simp add: cycle_def)
  ultimately show ?thesis by (intro walk_nodes)
next
  case False
  then have "length p \<le> 1" by simp
  moreover from assms have "p \<noteq> []" by (simp add: cycle_def)
  ultimately obtain v where "p = [v]"
    by (cases p) (auto simp: le_Suc_eq)
  with assms show ?thesis by (auto simp: cycle_def)
qed

lemma pair_graph_acyclic: "acyclic_undirected pair_graph"
  unfolding acyclic_undirected_def
proof (intro allI notI)
  fix p assume c: "cycle pair_graph p"
  have adj: "adjacent pair_graph u v \<Longrightarrow> u \<in> {KNum (Finite 1), KNum (Finite 2)} \<and> u \<noteq> v" for u v
    by (auto simp: adjacent_def pair_graph_def)
  from cycle_nodes [OF c] adj have sub: "set p \<subseteq> {KNum (Finite 1), KNum (Finite 2)}"
    by blast
  from c have d: "distinct p" and ne: "p \<noteq> []" and l2: "length p \<noteq> 2"
    and cl: "adjacent pair_graph (last p) (hd p)"
    by (simp_all add: cycle_def)
  from sub have "card (set p) \<le> card {KNum (Finite 1), KNum (Finite 2)}"
    by (intro card_mono) simp_all
  with d have "length p \<le> 2" by (simp add: distinct_card)
  with l2 have "length p \<le> 1" by simp
  with ne obtain v where "p = [v]"
    by (cases p) (auto simp: le_Suc_eq)
  with cl adj [of v v] show False by simp
qed

lemma iteration_order_id: "iteration_order id"
  by (simp add: iteration_order_def)

theorem estimate_inbreeding_bounds_witness:
  "iteration_order id \<and> acyclic_undirected pair_graph
   \<and> estimate_inbreeding id pair_graph = Inr 0
   \<and> estimate_inbreeding id triangle_graph = Inr (417 / 10000)
   \<and> (417 / 10000 :: rat) \<le> 1 / 4"
proof -
  from estimate_inbreeding_bounds [OF iteration_order_id, of pair_graph] pair_graph_acyclic
  have "estimate_inbreeding id pair_graph = Inr 0" by auto
  moreover have "estimate_inbreeding id triangle_graph = Inr (417 / 10000)"
    by code_simp
  ultimately show ?thesis
    using iteration_order_id pair_graph_acyclic by simp
qed

subsection \<open>Risk bucket\<close>

text \<open>
  C7. The risk bucket is monotone in the inbreeding score for a fixed list of flags, under
  the ordering Low < Moderate < High. High is returned exactly when the score exceeds
  0.0625 or some flag contains "dominant" after lower-casing; otherwise Moderate exactly
  when the score exceeds 0.015625 or some flag contains "recessive"; otherwise Low.
\<close>

theorem risk_bucket_monotone:
  "(s1 \<le> s2 \<longrightarrow> bucket_rank (risk_bucket s1 flags) \<le> bucket_rank (risk_bucket s2 flags))
   \<and> (risk_bucket s flags = ''High'' \<longleftrightarrow>
        s > 1 / 16 \<or> list_ex (\<lambda>f. str_contains ''dominant'' (py_lower f)) flags)
   \<and> (risk_bucket s flags = ''Moderate'' \<longleftrightarrow>
        \<not> (s > 1 / 16 \<or> list_ex (\<lambda>f. str_contains ''dominant'' (py_lower f)) flags)
        \<and> (s > 1 / 64 \<or> list_ex (\<lambda>f. str_contains ''recessive'' (py_lower f)) flags))
   \<and> (risk_bucket s flags = ''Low'' \<longleftrightarrow>
        \<not> (s > 1 / 16 \<or> list_ex (\<lambda>f. str_contains ''dominant'' (py_lower f)) flags)
        \<and> \<not> (s > 1 / 64 \<or> list_ex (\<lambda>f. str_contains ''recessive'' (py_lower f)) flags))"
  by (auto simp: risk_bucket_def bucket_rank_def)

theorem risk_bucket_monotone_witness:
  "(1 / 100 :: rat) \<le> 1 / 10
   \<and> bucket_rank (risk_bucket (1 / 100) [''Autosomal recessive pattern possible for x''])
       \<le> bucket_rank (risk_bucket (1 / 10) [''Autosomal recessive pattern possible for x''])
   \<and> risk_bucket (1 / 10) [''Autosomal recessive pattern possible for x''] = ''High''
   \<and> risk_bucket (1 / 100) [''Autosomal recessive pattern possible for x''] = ''Moderate''"
  using risk_bucket_monotone [of "1 / 100" "1 / 10"
      "[''Autosomal recessive pattern possible for x'']" "1 / 10"]
  by (simp add: risk_bucket_def py_lower_def char_lower_def)

end
